theory Spec2Isabelle
  imports Complex_Main "HOL-Library.Char_ord" "HOL-Library.List_Lexorder"
begin

section \<open>Configuration (config.py)\<close>

text \<open>
  The constants of \<^verbatim>\<open>Constants\<close> and \<^verbatim>\<open>DefaultArguments\<close> that the solver reads.
  A Python string is a \<^typ>\<open>string\<close>; the one-character strings that make up a
  pattern are single characters.
\<close>

definition EMPTY_SYMBOL :: char where
  "EMPTY_SYMBOL = CHR ''_''"

definition EMPTY_SYMBOL_FOR_PATTERN_MATCHING :: string where
  "EMPTY_SYMBOL_FOR_PATTERN_MATCHING = ''[A-Z]''"

definition BLOCK_SYMBOL :: string where
  "BLOCK_SYMBOL = ''''"

definition BLOCK_SEPARATOR :: char where
  "BLOCK_SEPARATOR = CHR ''$''"

definition MIN_WORD_LENGTH :: nat where
  "MIN_WORD_LENGTH = 3"

section \<open>Python values and errors\<close>

datatype py_error = AttributeError | IndexError | KeyError | TypeError | ValueError | RuntimeError | Exception

text \<open>
  Indices are natural numbers: every index the solver uses comes from \<^verbatim>\<open>enumerate\<close>
  or \<^verbatim>\<open>range\<close>, so Python's negative indexing never applies. Reading or writing
  a list at an index beyond its end raises \<^verbatim>\<open>IndexError\<close>.
\<close>

section \<open>Grid analysis (layout\_handler.py)\<close>

datatype Orientation = ACROSS | DOWN

text \<open>
  A slice \<^verbatim>\<open>slice(a, b)\<close> is the pair \<open>(a, Some b)\<close>, \<^verbatim>\<open>slice(a, None)\<close> is
  \<open>(a, None)\<close>. Applying a slice never raises: Python clamps it to the list.
\<close>

type_synonym slice = "nat \<times> nat option"

fun get_slice :: "nat \<Rightarrow> nat \<Rightarrow> Orientation \<Rightarrow> slice \<times> slice" where
  "get_slice row col ACROSS = ((row, Some (row + 1)), (col, None))"
| "get_slice row col DOWN = ((row, None), (col, Some (col + 1)))"

fun get_coordinates :: "nat \<Rightarrow> nat \<Rightarrow> Orientation \<Rightarrow> nat \<Rightarrow> (nat \<times> nat) list" where
  "get_coordinates row col ACROSS len = map (\<lambda>k. (row, col + k)) [0..<len]"
| "get_coordinates row col DOWN len = map (\<lambda>k. (row + k, col)) [0..<len]"

text \<open>
  The layout is a rectangular table of cell strings (a \<^verbatim>\<open>DataFrame\<close>), kept as the
  list of its rows. \<open>iloc_slices\<close> is \<^verbatim>\<open>layout.iloc[rows, cols].values.flatten()\<close>,
  \<open>iloc\<close> is \<^verbatim>\<open>layout.iloc[row, col]\<close> at a position inside the table.
\<close>

type_synonym layout = "string list list"

definition apply_slice :: "slice \<Rightarrow> 'a list \<Rightarrow> 'a list" where
  "apply_slice s xs = (case snd s of None \<Rightarrow> drop (fst s) xs | Some b \<Rightarrow> drop (fst s) (take b xs))"

definition iloc_slices :: "layout \<Rightarrow> slice \<times> slice \<Rightarrow> string list" where
  "iloc_slices lay ss = concat (map (apply_slice (snd ss)) (apply_slice (fst ss) lay))"

definition iloc :: "layout \<Rightarrow> nat \<Rightarrow> nat \<Rightarrow> string" where
  "iloc lay row col = lay ! row ! col"

definition replace_block_symbol :: "layout \<Rightarrow> layout" where
  "replace_block_symbol lay = map (map (\<lambda>c. if c = BLOCK_SYMBOL then [BLOCK_SEPARATOR] else c)) lay"

definition shape0 :: "layout \<Rightarrow> nat" where
  "shape0 lay = length lay"

definition shape1 :: "layout \<Rightarrow> nat" where
  "shape1 lay = (case lay of [] \<Rightarrow> 0 | r # _ \<Rightarrow> length r)"

text \<open>
  The body of the two nested loops of \<^verbatim>\<open>extract_entries_from_layout\<close> for one cell:
  the (pattern, coordinates) pairs it appends, in order. \<open>lay\<close> is the layout after
  the block symbol has been replaced by the separator.
\<close>

definition word_from :: "layout \<Rightarrow> nat \<Rightarrow> nat \<Rightarrow> Orientation \<Rightarrow> string" where
  "word_from lay row col orientation =
     (let word = concat (iloc_slices lay (get_slice row col orientation))
      in if BLOCK_SEPARATOR \<in> set word then takeWhile (\<lambda>c. c \<noteq> BLOCK_SEPARATOR) word else word)"

definition entries_at :: "layout \<Rightarrow> nat \<Rightarrow> nat \<Rightarrow> (string \<times> (nat \<times> nat) list) list" where
  "entries_at lay row col =
     (if iloc lay row col = [BLOCK_SEPARATOR] then []
      else
        let orientations_to_add =
              (if col = 0 \<or> iloc lay row (col - 1) = [BLOCK_SEPARATOR] then [ACROSS] else []) @
              (if row = 0 \<or> iloc lay (row - 1) col = [BLOCK_SEPARATOR] then [DOWN] else [])
        in concat (map (\<lambda>orientation.
              let word = word_from lay row col orientation
              in if length word < MIN_WORD_LENGTH then []
                 else [(word, get_coordinates row col orientation (length word))])
            orientations_to_add))"

definition extract_entries_from_layout :: "layout \<Rightarrow> string list \<times> (nat \<times> nat) list list" where
  "extract_entries_from_layout lay0 =
     (let lay = replace_block_symbol lay0;
          num_rows = shape0 lay;
          num_cols = shape1 lay;
          found = concat (map (\<lambda>row. concat (map (\<lambda>col. entries_at lay row col) [0..<num_cols]))
                    [0..<num_rows])
      in (map fst found, map snd found))"

text \<open>
  \<^verbatim>\<open>get_dependencies\<close>: for every entry \<open>pA\<close>, for every cell of it, for every other
  entry \<open>pB\<close> and every position of \<open>pB\<close> with the same cell, one pair is appended.
  A cell that no other entry shares appends nothing.
\<close>

definition get_dependencies :: "(nat \<times> nat) list list \<Rightarrow> (nat \<times> nat) list list" where
  "get_dependencies coords =
     map (\<lambda>(pA, pA_coordinates).
       concat (map (\<lambda>pA_coord.
         concat (map (\<lambda>(pB, pB_coordinates).
           if pA = pB then []
           else concat (map (\<lambda>(pB_pos, pB_coord).
                  if pA_coord = pB_coord then [(pB, pB_pos)] else [])
                (enumerate 0 pB_coordinates)))
         (enumerate 0 coords)))
       pA_coordinates))
     (enumerate 0 coords)"

text \<open>
  The fields of \<^verbatim>\<open>LayoutHandler\<close> that the solver reads, as its constructor
  computes them.
\<close>

record LayoutHandler =
  lh_layout :: layout
  lh_patterns :: "string list"
  lh_coordinates :: "(nat \<times> nat) list list"
  lh_dependencies :: "(nat \<times> nat) list list"
  lh_num_entries :: nat
  lh_entries :: "nat list"
  lh_entry_lengths :: "nat list"
  lh_word_lengths :: "nat list"

definition LayoutHandler_init :: "layout \<Rightarrow> LayoutHandler" where
  "LayoutHandler_init initial_layout =
     (let (pats, coords) = extract_entries_from_layout initial_layout
      in \<lparr> lh_layout = initial_layout,
           lh_patterns = pats,
           lh_coordinates = coords,
           lh_dependencies = get_dependencies coords,
           lh_num_entries = length coords,
           lh_entries = [0..<length coords],
           lh_entry_lengths = map length coords,
           lh_word_lengths = sort (remdups (map length coords)) \<rparr>)"

section \<open>Pattern matching (common.py and Python's re)\<close>

text \<open>
  A pattern is a list of one-character strings, so a \<^typ>\<open>string\<close>;
  \<^verbatim>\<open>"".join(pattern)\<close> is the pattern itself. \<open>convert_pattern_for_matching\<close>
  replaces every empty symbol by the character class.
\<close>

definition convert_pattern_for_matching :: "string \<Rightarrow> string" where
  "convert_pattern_for_matching pat =
     concat (map (\<lambda>c. if c = EMPTY_SYMBOL then EMPTY_SYMBOL_FOR_PATTERN_MATCHING else [c]) pat)"

definition is_AZ :: "char \<Rightarrow> bool" where
  "is_AZ c \<longleftrightarrow> c \<in> set ''ABCDEFGHIJKLMNOPQRSTUVWXYZ''"

text \<open>
  \<^verbatim>\<open>re.fullmatch\<close> on the regular expressions that \<open>convert_pattern_for_matching\<close>
  builds from letters and empty symbols: the five characters \<^verbatim>\<open>[A-Z]\<close> match one
  character from A to Z, any other character matches itself. (A pattern that holds a
  metacharacter of regular expressions other than through the empty symbol is outside
  this model; grids of blocks, empty symbols and letters never produce one.)
\<close>

fun re_fullmatch :: "string \<Rightarrow> string \<Rightarrow> bool" where
  "re_fullmatch p w =
     (if p = [] then w = []
      else if take 5 p = ''[A-Z]'' then w \<noteq> [] \<and> is_AZ (hd w) \<and> re_fullmatch (drop 5 p) (tl w)
      else w \<noteq> [] \<and> hd w = hd p \<and> re_fullmatch (tl p) (tl w))"

declare re_fullmatch.simps [simp del]

section \<open>Word index (word\_handler.py)\<close>

text \<open>
  An item of the raw word iterable is a string or some other value (a number, a missing
  value read from a file). A Python string is a sequence of Unicode code points, here
  integers; \<open>py_str\<close> gives the string of an ASCII literal.
\<close>

datatype raw_word = Str "int list" | NonStr

definition py_str :: "string \<Rightarrow> int list" where
  "py_str s = map of_char s"

text \<open>
  \<^verbatim>\<open>x.upper()\<close> replaces every character of \<^verbatim>\<open>x\<close> on its own by its uppercase form, one
  or more characters, and \<^verbatim>\<open>re.sub("[^A-Z]", "", ...)\<close> then deletes every character
  that is not one of the 26 letters A to Z. \<open>upper_AZ\<close> is what the two steps leave of
  one character: the letters A to Z in its uppercase form, in order. The table lists
  every code point for which that is not empty (Python 3.11, Unicode 14): the letters
  A to Z, the letters a to z, and 17 others, among them the sharp s with the uppercase
  form \<^verbatim>\<open>SS\<close> and the ligatures.
\<close>

definition upper_AZ_table :: "(int \<times> string) list" where
  "upper_AZ_table =
     [(65, ''A''), (66, ''B''), (67, ''C''), (68, ''D''), (69, ''E''), (70, ''F''),
      (71, ''G''), (72, ''H''), (73, ''I''), (74, ''J''), (75, ''K''), (76, ''L''),
      (77, ''M''), (78, ''N''), (79, ''O''), (80, ''P''), (81, ''Q''), (82, ''R''),
      (83, ''S''), (84, ''T''), (85, ''U''), (86, ''V''), (87, ''W''), (88, ''X''),
      (89, ''Y''), (90, ''Z''),
      (97, ''A''), (98, ''B''), (99, ''C''), (100, ''D''), (101, ''E''), (102, ''F''),
      (103, ''G''), (104, ''H''), (105, ''I''), (106, ''J''), (107, ''K''), (108, ''L''),
      (109, ''M''), (110, ''N''), (111, ''O''), (112, ''P''), (113, ''Q''), (114, ''R''),
      (115, ''S''), (116, ''T''), (117, ''U''), (118, ''V''), (119, ''W''), (120, ''X''),
      (121, ''Y''), (122, ''Z''),
      (223, ''SS''), (305, ''I''), (329, ''N''), (383, ''S''), (496, ''J''), (7830, ''H''),
      (7831, ''T''), (7832, ''W''), (7833, ''Y''), (7834, ''A''), (64256, ''FF''), (64257, ''FI''),
      (64258, ''FL''), (64259, ''FFI''), (64260, ''FFL''), (64261, ''ST''), (64262, ''ST'')]"

definition upper_AZ :: "int \<Rightarrow> string" where
  "upper_AZ cp = (case map_of upper_AZ_table cp of None \<Rightarrow> [] | Some letters \<Rightarrow> letters)"

fun filter_func :: "nat list \<Rightarrow> raw_word \<Rightarrow> bool" where
  "filter_func word_lengths (Str x) = (length x \<in> set word_lengths)"
| "filter_func word_lengths NonStr = False"

definition map_func :: "int list \<Rightarrow> string" where
  "map_func x = concat (map upper_AZ x)"

text \<open>
  numpy's random generator is not part of the repository; it is a parameter. Its state
  has type \<open>'g\<close>. \<open>np_choice g n\<close> is the number drawn by \<^verbatim>\<open>np.random.choice(a)\<close> for
  a population of size \<open>n\<close>, \<open>np_sample g n k\<close> the numbers drawn by
  \<^verbatim>\<open>np.random.choice(a, size=k, replace=False)\<close>; both return the next state. That
  \<^verbatim>\<open>choice\<close> returns elements of its argument is part of the model: a drawn number is
  taken modulo the size of the population.
\<close>

record 'g np_random =
  np_seed :: "nat \<Rightarrow> 'g"
  np_choice :: "'g \<Rightarrow> nat \<Rightarrow> nat \<times> 'g"
  np_sample :: "'g \<Rightarrow> nat \<Rightarrow> nat \<Rightarrow> nat list \<times> 'g"

definition transformed_words :: "nat list \<Rightarrow> raw_word list \<Rightarrow> string list" where
  "transformed_words word_lengths raw_words =
     [map_func x. Str x \<leftarrow> filter (filter_func word_lengths) raw_words]"

text \<open>\<open>max_num_words\<close> is a number or \<^verbatim>\<open>np.inf\<close> (\<open>None\<close>).\<close>

definition preprocess_words ::
  "'g np_random \<Rightarrow> 'g \<Rightarrow> nat list \<Rightarrow> nat option \<Rightarrow> raw_word list \<Rightarrow> string list \<times> 'g" where
  "preprocess_words rng g word_lengths max_num_words raw_words =
     (let words = sort (remdups (transformed_words word_lengths raw_words));
          size = (case max_num_words of None \<Rightarrow> length words | Some m \<Rightarrow> min (length words) m);
          (drawn, g') = np_sample rng g (length words) size
      in (map (\<lambda>i. words ! (i mod length words)) (take size drawn), g'))"

definition separate_words_by_length :: "nat list \<Rightarrow> string list \<Rightarrow> (nat \<rightharpoonup> string list)" where
  "separate_words_by_length word_lengths clean_words =
     map_of (map (\<lambda>len. (len, sort (filter (\<lambda>x. length x = len) clean_words))) word_lengths)"

record WordHandler =
  wh_word_lengths :: "nat list"
  wh_max_num_words :: "nat option"
  wh_raw_words :: "raw_word list"
  wh_clean_words :: "string list"
  wh_words_by_length :: "nat \<rightharpoonup> string list"

definition WordHandler_init ::
  "'g np_random \<Rightarrow> 'g \<Rightarrow> nat list \<Rightarrow> nat option \<Rightarrow> raw_word list \<Rightarrow> WordHandler \<times> 'g" where
  "WordHandler_init rng g word_lengths max_num_words raw_words =
     (let (clean_words, g') = preprocess_words rng g word_lengths max_num_words raw_words
      in (\<lparr> wh_word_lengths = word_lengths,
            wh_max_num_words = max_num_words,
            wh_raw_words = raw_words,
            wh_clean_words = clean_words,
            wh_words_by_length = separate_words_by_length word_lengths clean_words \<rparr>, g'))"

section \<open>Crossword state (state.py)\<close>

record Entry =
  index :: nat
  length_e :: nat
  coordinates :: "(nat \<times> nat) list"
  dependencies :: "(nat \<times> nat) list"
  pattern :: string
  possible_words :: "string list"
  num_letters_fixed :: nat
  word_fixed :: bool

definition word :: "Entry \<Rightarrow> string" where
  "word e = pattern e"

definition num_possible_words :: "Entry \<Rightarrow> nat" where
  "num_possible_words e = length (possible_words e)"

text \<open>
  Python's \<^verbatim>\<open>min(xs, key=f)\<close> on a non-empty list: the first element whose key is
  least. \<open>py_min_key f best xs\<close> scans \<open>xs\<close> with the best element so far.
\<close>

fun py_min_key :: "('a \<Rightarrow> nat) \<Rightarrow> 'a \<Rightarrow> 'a list \<Rightarrow> 'a" where
  "py_min_key f best [] = best"
| "py_min_key f best (x # xs) = py_min_key f (if f x < f best then x else best) xs"

definition get_next_entry :: "Entry list \<Rightarrow> Entry option" where
  "get_next_entry empty_es =
     (case empty_es of [] \<Rightarrow> None | e # es \<Rightarrow> Some (py_min_key num_possible_words e es))"

record CrosswordState =
  entries :: "Entry list"
  empty_entries :: "Entry list"
  filled_entries :: "Entry list"
  words_already_used :: "string list"
  next_entry_to_be_filled :: "Entry option"

definition CrosswordState_init :: "Entry list \<Rightarrow> CrosswordState" where
  "CrosswordState_init es =
     \<lparr> entries = es,
       empty_entries = filter (\<lambda>p. \<not> word_fixed p) es,
       filled_entries = filter word_fixed es,
       words_already_used = map word (filter word_fixed es),
       next_entry_to_be_filled = get_next_entry (filter (\<lambda>p. \<not> word_fixed p) es) \<rparr>"

definition next_index :: "CrosswordState \<Rightarrow> nat option" where
  "next_index s = map_option index (next_entry_to_be_filled s)"

definition num_options :: "CrosswordState \<Rightarrow> nat option" where
  "num_options s = map_option num_possible_words (next_entry_to_be_filled s)"

definition get_possible_actions :: "CrosswordState \<Rightarrow> py_error + string list" where
  "get_possible_actions s =
     (case next_entry_to_be_filled s of
        None \<Rightarrow> Inl AttributeError
      | Some e \<Rightarrow> Inr (possible_words e))"

text \<open>
  The replacement \<^verbatim>\<open>affected_new\<close> that the loop of \<^verbatim>\<open>take_action\<close> builds for a
  crossing entry that is not fixed yet: the pattern with one slot overwritten, and the
  possible words that match it and are neither used nor the action.
\<close>

definition affected_entry :: "CrosswordState \<Rightarrow> string \<Rightarrow> Entry \<Rightarrow> Entry \<Rightarrow> nat \<Rightarrow> nat \<Rightarrow> Entry" where
  "affected_entry s action next_new affected_old current_position affected_entry_position =
     (let pat = (pattern affected_old)[affected_entry_position := pattern next_new ! current_position];
          pattern_for_matching = convert_pattern_for_matching pat
      in \<lparr> index = index affected_old,
           length_e = length_e affected_old,
           coordinates = coordinates affected_old,
           dependencies = dependencies affected_old,
           pattern = pat,
           possible_words =
             filter (\<lambda>w. re_fullmatch pattern_for_matching w
                       \<and> w \<notin> set (words_already_used s @ [action]))
               (possible_words affected_old),
           num_letters_fixed = num_letters_fixed affected_old + 1,
           word_fixed = False \<rparr>)"

text \<open>
  The loop of \<^verbatim>\<open>take_action\<close> over \<^verbatim>\<open>enumerate(next_old.dependencies)\<close>. It reads the
  crossing entry from the old state \<open>s\<close> and writes its replacement into
  \<open>new_entries\<close>; an index out of range raises \<^verbatim>\<open>IndexError\<close>.
\<close>

fun propagate ::
  "CrosswordState \<Rightarrow> string \<Rightarrow> Entry \<Rightarrow> Entry list \<Rightarrow> (nat \<times> nat \<times> nat) list \<Rightarrow> py_error + Entry list" where
  "propagate s action next_new new_entries [] = Inr new_entries"
| "propagate s action next_new new_entries
     ((current_position, affected_entry_index, affected_entry_position) # rest) =
     (if \<not> affected_entry_index < length (entries s) then Inl IndexError
      else
        let affected_old = entries s ! affected_entry_index
        in if word_fixed affected_old then propagate s action next_new new_entries rest
           else if \<not> current_position < length (pattern next_new) then Inl IndexError
           else if \<not> affected_entry_position < length (pattern affected_old) then Inl IndexError
           else if \<not> index affected_old < length new_entries then Inl IndexError
           else propagate s action next_new
                  (new_entries[index affected_old :=
                     affected_entry s action next_new affected_old current_position affected_entry_position])
                  rest)"

text \<open>The entry \<^verbatim>\<open>next_new\<close> that replaces the entry fixed by the action.\<close>

definition filled_entry :: "Entry \<Rightarrow> string \<Rightarrow> Entry" where
  "filled_entry next_old action =
     \<lparr> index = index next_old,
       length_e = length_e next_old,
       coordinates = coordinates next_old,
       dependencies = dependencies next_old,
       pattern = action,
       possible_words = [action],
       num_letters_fixed = length_e next_old,
       word_fixed = True \<rparr>"

definition take_action :: "CrosswordState \<Rightarrow> string \<Rightarrow> py_error + CrosswordState" where
  "take_action s action =
     (case next_entry_to_be_filled s of
        None \<Rightarrow> Inl AttributeError
      | Some next_old \<Rightarrow>
          let new_entries = entries s;
              next_new = filled_entry next_old action
          in if \<not> index next_old < length new_entries then Inl IndexError
             else (case propagate s action next_new (new_entries[index next_old := next_new])
                          (enumerate 0 (dependencies next_old)) of
                     Inl e \<Rightarrow> Inl e
                   | Inr es \<Rightarrow> Inr (CrosswordState_init es)))"

definition is_terminal :: "CrosswordState \<Rightarrow> bool" where
  "is_terminal s =
     (let success = (length (empty_entries s) = 0);
          fail = (case next_entry_to_be_filled s of
                    None \<Rightarrow> False
                  | Some e \<Rightarrow> num_possible_words e = 0)
      in success \<or> fail)"

definition get_reward :: "CrosswordState \<Rightarrow> nat" where
  "get_reward s = length (filled_entries s)"

text \<open>
  \<^verbatim>\<open>get_initial_crossword_state\<close>: one entry per index of the layout handler, in
  order. The lists of a \<^verbatim>\<open>LayoutHandler\<close> all have one element per entry, so the
  reads by index are in range; a length that is no key of \<^verbatim>\<open>words_by_length\<close> raises
  \<^verbatim>\<open>KeyError\<close>.
\<close>

definition initial_entry :: "LayoutHandler \<Rightarrow> WordHandler \<Rightarrow> nat \<Rightarrow> py_error + Entry" where
  "initial_entry lh wh i =
     (let len = lh_entry_lengths lh ! i;
          nlf = length (filter (\<lambda>x. x \<noteq> EMPTY_SYMBOL) (lh_patterns lh ! i));
          wf = (nlf = len);
          pat = lh_patterns lh ! i
      in case wh_words_by_length wh len of
           None \<Rightarrow> Inl KeyError
         | Some pws \<Rightarrow>
             Inr \<lparr> index = i,
                   length_e = len,
                   coordinates = lh_coordinates lh ! i,
                   dependencies = lh_dependencies lh ! i,
                   pattern = lh_patterns lh ! i,
                   possible_words =
                     (if wf then [pat]
                      else if nlf > 0 then filter (re_fullmatch (convert_pattern_for_matching pat)) pws
                      else pws),
                   num_letters_fixed = nlf,
                   word_fixed = wf \<rparr>)"

fun collect :: "('a \<Rightarrow> py_error + 'b) \<Rightarrow> 'a list \<Rightarrow> py_error + 'b list" where
  "collect f [] = Inr []"
| "collect f (x # xs) =
     (case f x of
        Inl e \<Rightarrow> Inl e
      | Inr y \<Rightarrow> (case collect f xs of Inl e \<Rightarrow> Inl e | Inr ys \<Rightarrow> Inr (y # ys)))"

definition get_initial_crossword_state :: "LayoutHandler \<Rightarrow> WordHandler \<Rightarrow> py_error + CrosswordState" where
  "get_initial_crossword_state lh wh =
     (case collect (initial_entry lh wh) (lh_entries lh) of
        Inl e \<Rightarrow> Inl e
      | Inr es \<Rightarrow> Inr (CrosswordState_init es))"

text \<open>
  The states the solver can reach for a layout handler and a word handler: the initial
  state, and every state that \<open>take_action\<close> returns for an action taken from
  \<open>get_possible_actions\<close>.
\<close>

inductive reachable :: "LayoutHandler \<Rightarrow> WordHandler \<Rightarrow> CrosswordState \<Rightarrow> bool" where
  initial: "get_initial_crossword_state lh wh = Inr s \<Longrightarrow> reachable lh wh s"
| action: "reachable lh wh s \<Longrightarrow> get_possible_actions s = Inr actions \<Longrightarrow> a \<in> set actions \<Longrightarrow>
     take_action s a = Inr s' \<Longrightarrow> reachable lh wh s'"

section \<open>Monte Carlo tree search (tree\_search.py)\<close>

text \<open>
  \<^verbatim>\<open>np.random.choice(a)\<close> on a non-empty list: the element at the drawn position, and
  the next state of the generator.
\<close>

definition np_random_choice :: "'g np_random \<Rightarrow> 'g \<Rightarrow> 'a list \<Rightarrow> 'a \<times> 'g" where
  "np_random_choice rng g xs =
     (let (i, g') = np_choice rng g (length xs) in (xs ! (i mod length xs), g'))"

text \<open>
  \<^verbatim>\<open>rollout_policy\<close>: random actions until a terminal state. The loop may in principle
  run forever, so the result is an option; an exception is a returned \<open>Inl\<close>. The
  branch for an empty action list of a non-terminal state returns \<open>Inl Exception\<close>.
\<close>

partial_function (option) rollout_policy ::
  "'g np_random \<Rightarrow> 'g \<Rightarrow> CrosswordState \<Rightarrow> ((py_error + nat) \<times> 'g) option" where
  "rollout_policy rng g st =
     (if is_terminal st then Some (Inr (get_reward st), g)
      else
        (case get_possible_actions st of
           Inl e \<Rightarrow> Some (Inl e, g)
         | Inr actions \<Rightarrow>
             if actions = [] then Some (Inl Exception, g)
             else
               (case take_action st (fst (np_random_choice rng g actions)) of
                  Inl e \<Rightarrow> Some (Inl e, snd (np_random_choice rng g actions))
                | Inr st' \<Rightarrow> rollout_policy rng (snd (np_random_choice rng g actions)) st')))"

text \<open>
  Tree nodes refer to each other (a child to its parent, a parent to its children), and
  the search updates them in place: the nodes live in a store, a function from
  references to nodes. \<^verbatim>\<open>children\<close> is a dictionary in insertion order: an association
  list from actions to references.
\<close>

type_synonym node_ref = nat

record TreeNode =
  parent :: "node_ref option"
  action_leading_here :: "string option"
  state :: CrosswordState
  children :: "(string \<times> node_ref) list"
  is_terminal_node :: bool
  is_fully_expanded :: bool
  num_visits :: nat
  reward :: real

type_synonym tree = "node_ref \<Rightarrow> TreeNode"

definition TreeNode_init :: "node_ref option \<Rightarrow> string option \<Rightarrow> CrosswordState \<Rightarrow> TreeNode" where
  "TreeNode_init par act st =
     \<lparr> parent = par,
       action_leading_here = act,
       state = st,
       children = [],
       is_terminal_node = is_terminal st,
       is_fully_expanded = is_terminal st,
       num_visits = 0,
       reward = 0 \<rparr>"

text \<open>
  The numbers that \<^verbatim>\<open>get_best_child\<close> compares are IEEE doubles computed by numpy.
  Floating point arithmetic is not part of the repository; it is a parameter: a type
  \<open>'f\<close> of doubles and the operations that the function uses. \<open>fl_num\<close> is the double of
  a Python number (an \<^verbatim>\<open>int\<close> or a \<^verbatim>\<open>float\<close>), \<open>fl_gt\<close> and \<open>fl_eq\<close> are \<^verbatim>\<open>>\<close> and \<^verbatim>\<open>==\<close>,
  \<open>fl_neg_inf\<close> is \<^verbatim>\<open>float("-inf")\<close>. numpy's division, logarithm and square root return
  an infinity or NaN where Python's own would raise, so the operations are total.
\<close>

record 'f np_float =
  fl_num :: "real \<Rightarrow> 'f"
  fl_add :: "'f \<Rightarrow> 'f \<Rightarrow> 'f"
  fl_mul :: "'f \<Rightarrow> 'f \<Rightarrow> 'f"
  fl_div :: "'f \<Rightarrow> 'f \<Rightarrow> 'f"
  fl_sqrt :: "'f \<Rightarrow> 'f"
  fl_log :: "'f \<Rightarrow> 'f"
  fl_gt :: "'f \<Rightarrow> 'f \<Rightarrow> bool"
  fl_eq :: "'f \<Rightarrow> 'f \<Rightarrow> bool"
  fl_neg_inf :: 'f

text \<open>
  \<open>node_value\<close> is the value of a child in the loop of \<^verbatim>\<open>get_best_child\<close>, after the
  value of a child whose state has 0 options has been replaced by 0. For a state with
  no next entry \<^verbatim>\<open>num_options\<close> is \<^verbatim>\<open>None\<close>, and \<^verbatim>\<open>None == 0\<close> is false.
\<close>

definition node_value :: "'f np_float \<Rightarrow> tree \<Rightarrow> node_ref \<Rightarrow> 'f \<Rightarrow> node_ref \<Rightarrow> 'f" where
  "node_value fl h p exploration_value c =
     (if num_options (state (h c)) = Some 0 then fl_num fl 0
      else fl_add fl (fl_num fl (reward (h c)))
             (fl_mul fl exploration_value
                (fl_sqrt fl (fl_div fl (fl_log fl (fl_num fl (real (num_visits (h p)))))
                                      (fl_num fl (real (num_visits (h c))))))))"

text \<open>
  \<^verbatim>\<open>best_options\<close> starts as \<^verbatim>\<open>float("-inf")\<close> and then holds the \<^verbatim>\<open>num_options\<close> of the
  best child, a number or \<^verbatim>\<open>None\<close>. \<open>options_gt\<close> is \<^verbatim>\<open>node_options > best_options\<close>:
  Python raises \<^verbatim>\<open>TypeError\<close> when either side is \<^verbatim>\<open>None\<close>.
\<close>

datatype best_options = MinusInf | Options "nat option"

fun options_gt :: "nat option \<Rightarrow> best_options \<Rightarrow> py_error + bool" where
  "options_gt None b = Inl TypeError"
| "options_gt (Some n) MinusInf = Inr True"
| "options_gt (Some n) (Options None) = Inl TypeError"
| "options_gt (Some n) (Options (Some b)) = Inr (b < n)"

text \<open>
  The loop of \<^verbatim>\<open>get_best_child\<close> over the children in insertion order, with the three
  variables \<^verbatim>\<open>best_node\<close>, \<^verbatim>\<open>best_value\<close> and \<^verbatim>\<open>best_options\<close>. The options are compared
  only when the value is not greater and is equal (\<^verbatim>\<open>or\<close> and \<^verbatim>\<open>and\<close> of Python
  evaluate their second operand only when needed). The result is \<^verbatim>\<open>best_node\<close>, which
  is still \<^verbatim>\<open>None\<close> if no child replaced it.
\<close>

fun best_child_loop ::
  "'f np_float \<Rightarrow> tree \<Rightarrow> node_ref \<Rightarrow> 'f \<Rightarrow> node_ref option \<times> 'f \<times> best_options \<Rightarrow> node_ref list
     \<Rightarrow> py_error + node_ref option" where
  "best_child_loop fl h p x (best_node, best_value, best_opts) [] = Inr best_node"
| "best_child_loop fl h p x (best_node, best_value, best_opts) (c # cs) =
     (let nv = node_value fl h p x c;
          node_options = num_options (state (h c))
      in if fl_gt fl nv best_value
         then best_child_loop fl h p x (Some c, nv, Options node_options) cs
         else if fl_eq fl nv best_value then
           (case options_gt node_options best_opts of
              Inl e \<Rightarrow> Inl e
            | Inr True \<Rightarrow> best_child_loop fl h p x (Some c, nv, Options node_options) cs
            | Inr False \<Rightarrow> best_child_loop fl h p x (best_node, best_value, best_opts) cs)
         else best_child_loop fl h p x (best_node, best_value, best_opts) cs)"

definition get_best_child ::
  "'f np_float \<Rightarrow> tree \<Rightarrow> node_ref \<Rightarrow> 'f \<Rightarrow> py_error + node_ref option" where
  "get_best_child fl h p exploration_value =
     best_child_loop fl h p exploration_value (None, fl_neg_inf fl, MinusInf)
       (map snd (children (h p)))"

text \<open>
  \<^verbatim>\<open>backpropagate\<close>: the loop follows the parent references until \<^verbatim>\<open>None\<close>; it does
  not return if the references form a cycle.
\<close>

partial_function (option) backpropagate :: "tree \<Rightarrow> node_ref option \<Rightarrow> real \<Rightarrow> tree option" where
  "backpropagate h node r =
     (case node of
        None \<Rightarrow> Some h
      | Some n \<Rightarrow>
          backpropagate
            (h(n := (h n)\<lparr> num_visits := num_visits (h n) + 1, reward := max r (reward (h n)) \<rparr>))
            (parent (h n)) r)"

section \<open>Invariants, runs and example inputs\<close>

definition aligned :: "Entry list \<Rightarrow> bool" where
  "aligned es \<longleftrightarrow> (\<forall>i<length es. index (es ! i) = i)"

definition entry_after :: "CrosswordState \<Rightarrow> string \<Rightarrow> Entry \<Rightarrow> nat \<Rightarrow> Entry \<Rightarrow> bool" where
  "entry_after s a next_old i e' \<longleftrightarrow>
     (i \<noteq> index next_old \<and> e' = entries s ! i)
     \<or> (i = index next_old \<and> e' = filled_entry next_old a)
     \<or> (\<exists>cp ai ap. (cp, ai, ap) \<in> set (enumerate 0 (dependencies next_old)) \<and>
           ai < length (entries s) \<and> \<not> word_fixed (entries s ! ai) \<and>
           cp < length a \<and> ap < length (pattern (entries s ! ai)) \<and>
           i = index (entries s ! ai) \<and>
           e' = affected_entry s a (filled_entry next_old a) (entries s ! ai) cp ap)"

fun play :: "CrosswordState \<Rightarrow> string list \<Rightarrow> CrosswordState option" where
  "play s [] = Some s"
| "play s (a # as) =
     (case get_possible_actions s of
        Inl _ \<Rightarrow> None
      | Inr actions \<Rightarrow>
          if a \<in> set actions
          then (case take_action s a of Inl _ \<Rightarrow> None | Inr s' \<Rightarrow> play s' as)
          else None)"

definition play_from_initial :: "LayoutHandler \<Rightarrow> WordHandler \<Rightarrow> string list \<Rightarrow> CrosswordState option" where
  "play_from_initial lh wh as =
     (case get_initial_crossword_state lh wh of Inl _ \<Rightarrow> None | Inr s \<Rightarrow> play s as)"

definition ex_rng :: "nat np_random" where
  "ex_rng = \<lparr> np_seed = (\<lambda>n. n), np_choice = (\<lambda>g n. (g, Suc g)), np_sample = (\<lambda>g n k. ([0..<k], g)) \<rparr>"

definition corner_layout :: layout where
  "corner_layout = [[''_'', ''_'', ''_'', ''_''],
                    [''_'', [], [], []],
                    [''_'', [], [], []]]"

definition corner_words :: WordHandler where
  "corner_words = fst (WordHandler_init ex_rng 0 [3, 4] None
     [Str (py_str ''dog''), Str (py_str ''duck''), NonStr, Str (py_str ''cog''),
      Str (py_str ''Dog''), Str (py_str ''deer'')])"

definition corner_state1 :: CrosswordState where
  "corner_state1 = CrosswordState_init
     [\<lparr> index = 0, length_e = 4, coordinates = [(0, 0), (0, 1), (0, 2), (0, 3)],
        dependencies = [(1, 0)], pattern = ''DUCK'', possible_words = [''DUCK''],
        num_letters_fixed = 4, word_fixed = True \<rparr>,
      \<lparr> index = 1, length_e = 3, coordinates = [(0, 0), (1, 0), (2, 0)],
        dependencies = [(0, 0)], pattern = ''D__'', possible_words = [''DOG''],
        num_letters_fixed = 1, word_fixed = False \<rparr>]"

definition blank3 :: layout where
  "blank3 = [[''_'', ''_'', ''_''], [''_'', ''_'', ''_''], [''_'', ''_'', ''_'']]"

definition square_words :: WordHandler where
  "square_words = fst (WordHandler_init ex_rng 0 [3] None
     [Str (py_str ''abc''), Str (py_str ''def''), Str (py_str ''ghi''), Str (py_str ''adg''),
      Str (py_str ''beh''), Str (py_str ''cfi'')])"


text \<open>
  The chain of parent references from a node to the root: \<open>ancestors h (Some n) ps\<close>
  holds when \<open>ps\<close> is \<open>n\<close>, its parent, and so on up to a node without parent.
\<close>

inductive ancestors :: "tree \<Rightarrow> node_ref option \<Rightarrow> node_ref list \<Rightarrow> bool" where
  root: "ancestors h None []"
| up: "ancestors h (parent (h n)) ps \<Longrightarrow> ancestors h (Some n) (n # ps)"

definition corner_state0 :: CrosswordState where
  "corner_state0 = CrosswordState_init
     [\<lparr> index = 0, length_e = 4, coordinates = [(0, 0), (0, 1), (0, 2), (0, 3)],
        dependencies = [(1, 0)], pattern = ''____'', possible_words = [''DEER'', ''DUCK''],
        num_letters_fixed = 0, word_fixed = False \<rparr>,
      \<lparr> index = 1, length_e = 3, coordinates = [(0, 0), (1, 0), (2, 0)],
        dependencies = [(0, 0)], pattern = ''___'', possible_words = [''COG'', ''DOG''],
        num_letters_fixed = 0, word_fixed = False \<rparr>]"

definition corner_state2 :: CrosswordState where
  "corner_state2 = CrosswordState_init
     [\<lparr> index = 0, length_e = 4, coordinates = [(0, 0), (0, 1), (0, 2), (0, 3)],
        dependencies = [(1, 0)], pattern = ''DUCK'', possible_words = [''DUCK''],
        num_letters_fixed = 4, word_fixed = True \<rparr>,
      \<lparr> index = 1, length_e = 3, coordinates = [(0, 0), (1, 0), (2, 0)],
        dependencies = [(0, 0)], pattern = ''DOG'', possible_words = [''DOG''],
        num_letters_fixed = 3, word_fixed = True \<rparr>]"

definition visited :: "real \<Rightarrow> TreeNode \<Rightarrow> TreeNode" where
  "visited r nd = nd\<lparr> num_visits := num_visits nd + 1, reward := max r (reward nd) \<rparr>"

definition corner_state1_deer :: CrosswordState where
  "corner_state1_deer = CrosswordState_init
     [\<lparr> index = 0, length_e = 4, coordinates = [(0, 0), (0, 1), (0, 2), (0, 3)],
        dependencies = [(1, 0)], pattern = ''DEER'', possible_words = [''DEER''],
        num_letters_fixed = 4, word_fixed = True \<rparr>,
      \<lparr> index = 1, length_e = 3, coordinates = [(0, 0), (1, 0), (2, 0)],
        dependencies = [(0, 0)], pattern = ''D__'', possible_words = [''DOG''],
        num_letters_fixed = 1, word_fixed = False \<rparr>]"

definition ex_tree :: tree where
  "ex_tree = (\<lambda>_. TreeNode_init None None corner_state2)
     (0 := (TreeNode_init None None corner_state0)
             \<lparr> children := [(''DEER'', 2), (''DUCK'', 1)], is_fully_expanded := True,
               num_visits := 2, reward := 2 \<rparr>,
      1 := (TreeNode_init (Some 0) (Some ''DUCK'') corner_state1)
             \<lparr> num_visits := 1, reward := 2 \<rparr>,
      2 := (TreeNode_init (Some 0) (Some ''DEER'') corner_state1_deer)
             \<lparr> num_visits := 1, reward := 1 \<rparr>)"

text \<open>
  A grid of one row of three cells with the two words \<^verbatim>\<open>cog\<close> and \<^verbatim>\<open>dog\<close>, and the search
  tree of the solver on it after two rounds: both children of the root are expanded,
  each is a terminal state with every entry filled, visited once with reward 1.
\<close>

definition line_layout :: layout where
  "line_layout = [[''_'', ''_'', ''_'']]"

definition line_words :: WordHandler where
  "line_words = fst (WordHandler_init ex_rng 0 [3] None [Str (py_str ''cog''), Str (py_str ''dog'')])"

definition line_state :: "string \<Rightarrow> string list \<Rightarrow> bool \<Rightarrow> CrosswordState" where
  "line_state pat pws fixed = CrosswordState_init
     [\<lparr> index = 0, length_e = 3, coordinates = [(0, 0), (0, 1), (0, 2)],
        dependencies = [], pattern = pat, possible_words = pws,
        num_letters_fixed = (if fixed then 3 else 0), word_fixed = fixed \<rparr>]"

definition line_tree :: tree where
  "line_tree = (\<lambda>_. TreeNode_init None None (line_state ''___'' [''COG'', ''DOG''] False))
     (0 := (TreeNode_init None None (line_state ''___'' [''COG'', ''DOG''] False))
             \<lparr> children := [(''COG'', 1), (''DOG'', 2)], is_fully_expanded := True,
               num_visits := 2, reward := 1 \<rparr>,
      1 := (TreeNode_init (Some 0) (Some ''COG'') (line_state ''COG'' [''COG''] True))
             \<lparr> num_visits := 1, reward := 1 \<rparr>,
      2 := (TreeNode_init (Some 0) (Some ''DOG'') (line_state ''DOG'' [''DOG''] True))
             \<lparr> num_visits := 1, reward := 1 \<rparr>)"

text \<open>
  An arithmetic without rounding, to have one instance of the parameter: a number, or
  \<open>None\<close> for minus infinity. (Division by 0, the logarithm and the square root of
  numbers outside their domain are those of the real numbers of HOL.)
\<close>

definition exact_float :: "real option np_float" where
  "exact_float =
     \<lparr> fl_num = Some,
       fl_add = (\<lambda>a b. case (a, b) of (Some u, Some v) \<Rightarrow> Some (u + v) | _ \<Rightarrow> None),
       fl_mul = (\<lambda>a b. case (a, b) of (Some u, Some v) \<Rightarrow> Some (u * v) | _ \<Rightarrow> None),
       fl_div = (\<lambda>a b. case (a, b) of (Some u, Some v) \<Rightarrow> Some (u / v) | _ \<Rightarrow> None),
       fl_sqrt = map_option sqrt,
       fl_log = map_option ln,
       fl_gt = (\<lambda>a b. case (a, b) of (Some u, Some v) \<Rightarrow> v < u | (Some u, None) \<Rightarrow> True | _ \<Rightarrow> False),
       fl_eq = (\<lambda>a b. a = b),
       fl_neg_inf = None \<rparr>"

definition tee_layout :: layout where
  "tee_layout = [[''_'', ''_'', ''_'', ''_''],
                 [[], ''_'', [], []],
                 [[], ''_'', [], []]]"

section \<open>Lemmas about pattern matching\<close>

definition slot_ok :: "char \<Rightarrow> char \<Rightarrow> bool" where
  "slot_ok p c \<longleftrightarrow> (if p = EMPTY_SYMBOL then is_AZ c else c = p)"

section \<open>Lemmas about the scan of the layout\<close>

definition plain_layout :: "layout \<Rightarrow> bool" where
  "plain_layout lay \<longleftrightarrow>
     (\<forall>row\<in>set lay. \<forall>cell\<in>set row. \<forall>ch\<in>set cell. ch = EMPTY_SYMBOL \<or> is_AZ ch)"

definition plain_char :: "char \<Rightarrow> bool" where
  "plain_char ch \<longleftrightarrow> ch = EMPTY_SYMBOL \<or> is_AZ ch"

definition scan_layout :: "layout \<Rightarrow> (string \<times> (nat \<times> nat) list) list" where
  "scan_layout lay =
     concat (map (\<lambda>row. concat (map (\<lambda>col. entries_at lay row col) [0..<shape1 lay]))
       [0..<shape0 lay])"

section \<open>Candidate lists in reachable states\<close>

definition entry_ok :: "WordHandler \<Rightarrow> Entry \<Rightarrow> bool" where
  "entry_ok wh e \<longleftrightarrow>
     length (pattern e) = length_e e \<and> list_all plain_char (pattern e) \<and>
     (if word_fixed e then possible_words e = [pattern e]
      else (\<exists>init. wh_words_by_length wh (length_e e) = Some init \<and>
              (\<forall>w\<in>set (possible_words e). w \<in> set init \<and> list_all2 slot_ok (pattern e) w)))"

section \<open>Geometry of the entries of a grid without letters\<close>

definition blank_layout :: "layout \<Rightarrow> bool" where
  "blank_layout lay \<longleftrightarrow>
     (\<forall>row\<in>set lay. length row = shape1 lay) \<and>
     (\<forall>row\<in>set lay. \<forall>cell\<in>set row. cell = [EMPTY_SYMBOL] \<or> cell = BLOCK_SYMBOL)"

text \<open>
  After the block symbol has been replaced, every cell of such a grid is one character:
  the empty symbol or the separator.
\<close>

definition unit_grid :: "layout \<Rightarrow> bool" where
  "unit_grid lay \<longleftrightarrow>
     (\<forall>row\<in>set lay. length row = shape1 lay) \<and>
     (\<forall>row\<in>set lay. \<forall>cell\<in>set row. cell = [EMPTY_SYMBOL] \<or> cell = [BLOCK_SEPARATOR])"

definition blocked :: "layout \<Rightarrow> nat \<Rightarrow> nat \<Rightarrow> bool" where
  "blocked lay r c \<longleftrightarrow> iloc lay r c = [BLOCK_SEPARATOR]"

text \<open>
  A run of \<open>n\<close> cells from \<open>(r, c)\<close> in an orientation: it starts at the edge or after a
  block, and none of its cells is a block.
\<close>

fun cell_of :: "nat \<Rightarrow> nat \<Rightarrow> Orientation \<Rightarrow> nat \<Rightarrow> nat \<times> nat" where
  "cell_of r c ACROSS k = (r, c + k)"
| "cell_of r c DOWN k = (r + k, c)"

definition is_run :: "layout \<Rightarrow> Orientation \<Rightarrow> nat \<Rightarrow> nat \<Rightarrow> nat \<Rightarrow> bool" where
  "is_run lay orientation r c n \<longleftrightarrow>
     (case orientation of
        ACROSS \<Rightarrow> c = 0 \<or> blocked lay r (c - 1)
      | DOWN \<Rightarrow> r = 0 \<or> blocked lay (r - 1) c) \<and>
     (\<forall>k<n. \<not> blocked lay (fst (cell_of r c orientation k)) (snd (cell_of r c orientation k)))"

section \<open>Lemmas about the crossword state\<close>

lemma collect_Inr:
  "collect f xs = Inr ys \<Longrightarrow> length ys = length xs \<and> (\<forall>i<length xs. f (xs ! i) = Inr (ys ! i))"
proof (induction xs arbitrary: ys)
  case Nil
  then show ?case by simp
next
  case (Cons x xs)
  from Cons.prems obtain y ys' where fx: "f x = Inr y" and rest: "collect f xs = Inr ys'" and ys: "ys = y # ys'"
    by (auto split: sum.splits)
  from Cons.IH [OF rest] have len: "length ys' = length xs"
    and nth: "\<forall>i<length xs. f (xs ! i) = Inr (ys' ! i)" by simp_all
  show ?case
  proof (intro conjI allI impI)
    show "length ys = length (x # xs)" using len ys by simp
  next
    fix i assume "i < length (x # xs)"
    then show "f ((x # xs) ! i) = Inr (ys ! i)"
      using fx nth ys by (cases i) simp_all
  qed
qed

lemma propagate_frame:
  "propagate s a nn es deps = Inr es' \<Longrightarrow>
   length es' = length es \<and>
   (\<forall>i<length es. es' ! i = es ! i \<or>
      (\<exists>cp ai ap. (cp, ai, ap) \<in> set deps \<and> ai < length (entries s) \<and>
         \<not> word_fixed (entries s ! ai) \<and>
         cp < length (pattern nn) \<and> ap < length (pattern (entries s ! ai)) \<and>
         i = index (entries s ! ai) \<and>
         es' ! i = affected_entry s a nn (entries s ! ai) cp ap))"
proof (induction deps arbitrary: es)
  case Nil
  then show ?case by simp
next
  case (Cons d deps)
  obtain cp ai ap where d: "d = (cp, ai, ap)" by (cases d) auto
  show ?case
  proof (cases "word_fixed (entries s ! ai)")
    case True
    with Cons.prems d have "propagate s a nn es deps = Inr es'"
      by (simp split: if_splits)
    from Cons.IH [OF this] show ?thesis by (simp, blast)
  next
    case False
    let ?old = "entries s ! ai"
    let ?new = "affected_entry s a nn ?old cp ap"
    from Cons.prems d False have ai: "ai < length (entries s)" and ix: "index ?old < length es"
      and bounds: "cp < length (pattern nn)" "ap < length (pattern ?old)"
      and rest: "propagate s a nn (es[index ?old := ?new]) deps = Inr es'"
      by (simp_all add: Let_def split: if_splits)
    from Cons.IH [OF rest] have len: "length es' = length es"
      and nth: "\<forall>i<length es. es' ! i = (es[index ?old := ?new]) ! i \<or>
        (\<exists>cp ai ap. (cp, ai, ap) \<in> set deps \<and> ai < length (entries s) \<and>
           \<not> word_fixed (entries s ! ai) \<and>
           cp < length (pattern nn) \<and> ap < length (pattern (entries s ! ai)) \<and>
           i = index (entries s ! ai) \<and>
           es' ! i = affected_entry s a nn (entries s ! ai) cp ap)"
      by simp_all
    show ?thesis
    proof (intro conjI allI impI)
      show "length es' = length es" by (rule len)
    next
      fix i assume i: "i < length es"
      from nth i consider
          (upd) "es' ! i = (es[index ?old := ?new]) ! i"
        | (later) "\<exists>cp ai ap. (cp, ai, ap) \<in> set deps \<and> ai < length (entries s) \<and>
             \<not> word_fixed (entries s ! ai) \<and>
             cp < length (pattern nn) \<and> ap < length (pattern (entries s ! ai)) \<and>
             i = index (entries s ! ai) \<and>
             es' ! i = affected_entry s a nn (entries s ! ai) cp ap"
        by blast
      then show "es' ! i = es ! i \<or>
        (\<exists>cp ai ap. (cp, ai, ap) \<in> set (d # deps) \<and> ai < length (entries s) \<and>
           \<not> word_fixed (entries s ! ai) \<and>
           cp < length (pattern nn) \<and> ap < length (pattern (entries s ! ai)) \<and>
           i = index (entries s ! ai) \<and>
           es' ! i = affected_entry s a nn (entries s ! ai) cp ap)"
      proof cases
        case upd
        show ?thesis
        proof (cases "i = index ?old")
          case True
          with upd i have "es' ! i = ?new" by simp
          with True ai False d bounds show ?thesis by auto
        next
          case False
          with upd show ?thesis by simp
        qed
      next
        case later
        then show ?thesis by auto
      qed
    qed
  qed
qed

lemma take_action_Inr:
  assumes "take_action s a = Inr s'"
  shows "\<exists>next_old es'.
    next_entry_to_be_filled s = Some next_old \<and>
    index next_old < length (entries s) \<and>
    s' = CrosswordState_init es' \<and>
    length es' = length (entries s) \<and>
    (\<forall>i<length (entries s). entry_after s a next_old i (es' ! i))"
proof -
  from assms obtain next_old where nx: "next_entry_to_be_filled s = Some next_old"
    by (auto simp: take_action_def split: option.splits)
  let ?nn = "filled_entry next_old a"
  let ?es0 = "(entries s)[index next_old := ?nn]"
  from assms nx have ix: "index next_old < length (entries s)"
    by (auto simp: take_action_def Let_def split: if_splits)
  from assms nx ix obtain es' where
    pr: "propagate s a ?nn ?es0 (enumerate 0 (dependencies next_old)) = Inr es'"
    and s': "s' = CrosswordState_init es'"
    by (auto simp: take_action_def Let_def split: sum.splits)
  from propagate_frame [OF pr] have len: "length es' = length (entries s)"
    and nth: "\<forall>i<length (entries s). es' ! i = ?es0 ! i \<or>
      (\<exists>cp ai ap. (cp, ai, ap) \<in> set (enumerate 0 (dependencies next_old)) \<and>
         ai < length (entries s) \<and> \<not> word_fixed (entries s ! ai) \<and>
         cp < length a \<and> ap < length (pattern (entries s ! ai)) \<and>
         i = index (entries s ! ai) \<and>
         es' ! i = affected_entry s a ?nn (entries s ! ai) cp ap)"
    by (simp_all add: filled_entry_def)
  have "entry_after s a next_old i (es' ! i)" if i: "i < length (entries s)" for i
  proof (cases "i = index next_old")
    case True
    with nth i ix show ?thesis unfolding entry_after_def by auto
  next
    case False
    with nth i show ?thesis unfolding entry_after_def by auto
  qed
  with nx ix s' len show ?thesis by blast
qed

lemma entries_CrosswordState_init [simp]: "entries (CrosswordState_init es) = es"
  by (simp add: CrosswordState_init_def)

lemma index_filled_entry [simp]: "index (filled_entry e a) = index e"
  by (simp add: filled_entry_def)

lemma index_affected_entry [simp]: "index (affected_entry s a nn old cp ap) = index old"
  by (simp add: affected_entry_def Let_def)

lemma take_action_aligned:
  assumes "take_action s a = Inr s'" and "aligned (entries s)"
  shows "aligned (entries s')"
proof -
  from take_action_Inr [OF assms(1)] obtain next_old es' where
    s': "s' = CrosswordState_init es'" and
    len: "length es' = length (entries s)" and
    nth: "\<forall>i<length (entries s). entry_after s a next_old i (es' ! i)"
    by blast
  have "index (es' ! i) = i" if "i < length es'" for i
  proof -
    from that len have i: "i < length (entries s)" by simp
    with assms(2) have "index (entries s ! i) = i" by (simp add: aligned_def)
    with nth i show ?thesis by (auto simp: entry_after_def)
  qed
  with s' show ?thesis by (simp add: aligned_def)
qed

lemma lh_entries_init [simp]:
  "lh_entries (LayoutHandler_init lay) = [0..<lh_num_entries (LayoutHandler_init lay)]"
  by (simp add: LayoutHandler_init_def Let_def split: prod.splits)

lemma initial_entry_index: "initial_entry lh wh i = Inr e \<Longrightarrow> index e = i"
  by (auto simp: initial_entry_def Let_def split: option.splits)

lemma initial_aligned:
  assumes "get_initial_crossword_state (LayoutHandler_init lay) wh = Inr s"
  shows "aligned (entries s)"
proof -
  let ?lh = "LayoutHandler_init lay"
  let ?n = "lh_num_entries ?lh"
  from assms obtain es where c: "collect (initial_entry ?lh wh) [0..<?n] = Inr es"
    and s: "s = CrosswordState_init es"
    by (auto simp: get_initial_crossword_state_def split: sum.splits)
  from collect_Inr [OF c] have len: "length es = ?n"
    and nth: "\<forall>i<?n. initial_entry ?lh wh ([0..<?n] ! i) = Inr (es ! i)" by simp_all
  have "index (es ! i) = i" if "i < length es" for i
  proof -
    from that len nth have "initial_entry ?lh wh i = Inr (es ! i)" by simp
    then show ?thesis by (rule initial_entry_index)
  qed
  with s show ?thesis by (simp add: aligned_def)
qed

lemma reachable_aligned:
  "reachable (LayoutHandler_init lay) wh s \<Longrightarrow> aligned (entries s)"
proof (induction "LayoutHandler_init lay" wh s rule: reachable.induct)
  case (initial wh s)
  then show ?case by (rule initial_aligned)
next
  case (action wh s actions a s')
  then show ?case by (blast intro: take_action_aligned)
qed

lemma reachable_init_form:
  "reachable lh wh s \<Longrightarrow> s = CrosswordState_init (entries s)"
proof (induction rule: reachable.induct)
  case (initial lh wh s)
  then show ?case
    by (auto simp: get_initial_crossword_state_def split: sum.splits)
next
  case (action lh wh s actions a s')
  from take_action_Inr [OF action.hyps(4)] show ?case
    by auto
qed

lemma initial_entry_fixed:
  "initial_entry lh wh i = Inr e \<Longrightarrow> word_fixed e = (num_letters_fixed e = length_e e)"
  by (auto simp: initial_entry_def Let_def split: option.splits)

lemma initial_entries:
  assumes "get_initial_crossword_state lh wh = Inr s" and "e \<in> set (entries s)"
  shows "\<exists>i. initial_entry lh wh i = Inr e"
proof -
  from assms(1) obtain es where c: "collect (initial_entry lh wh) (lh_entries lh) = Inr es"
    and s: "s = CrosswordState_init es"
    by (auto simp: get_initial_crossword_state_def split: sum.splits)
  from assms(2) s obtain k where k: "k < length es" and e: "e = es ! k"
    by (auto simp: in_set_conv_nth)
  from collect_Inr [OF c] k have "initial_entry lh wh (lh_entries lh ! k) = Inr (es ! k)"
    by simp
  with e show ?thesis by blast
qed

lemma reachable_fixed_complete:
  "reachable lh wh s \<Longrightarrow> e \<in> set (entries s) \<Longrightarrow> word_fixed e \<Longrightarrow>
     num_letters_fixed e = length_e e"
proof (induction arbitrary: e rule: reachable.induct)
  case (initial lh wh s)
  from initial_entries [OF initial.hyps initial.prems(1)] initial.prems(2)
  show ?case by (auto dest: initial_entry_fixed)
next
  case (action lh wh s actions a s')
  from take_action_Inr [OF action.hyps(4)] obtain next_old es' where
    s': "s' = CrosswordState_init es'" and
    len: "length es' = length (entries s)" and
    nth: "\<forall>i<length (entries s). entry_after s a next_old i (es' ! i)"
    by blast
  from action.prems(1) s' len obtain i where i: "i < length (entries s)" and e: "e = es' ! i"
    by (auto simp: in_set_conv_nth)
  from nth i e have "entry_after s a next_old i e" by simp
  then consider "e = entries s ! i" | "e = filled_entry next_old a"
    | cp ai ap where "e = affected_entry s a (filled_entry next_old a) (entries s ! ai) cp ap"
    unfolding entry_after_def by blast
  then show ?case
  proof cases
    case 1
    with i have "e \<in> set (entries s)" by simp
    with action.IH action.prems(2) show ?thesis by blast
  next
    case 2
    then show ?thesis by (simp add: filled_entry_def)
  next
    case 3
    with action.prems(2) show ?thesis by (simp add: affected_entry_def Let_def)
  qed
qed

lemma py_min_key_first:
  "\<exists>pre post. b # xs = pre @ py_min_key f b xs # post \<and>
     (\<forall>x\<in>set pre. f (py_min_key f b xs) < f x) \<and>
     (\<forall>x\<in>set post. f (py_min_key f b xs) \<le> f x)"
proof (induction xs arbitrary: b)
  case Nil
  have "[b] = [] @ b # []" by simp
  then show ?case by force
next
  case (Cons x xs)
  show ?case
  proof (cases "f x < f b")
    case True
    define m where "m = py_min_key f x xs"
    from True have mm: "py_min_key f b (x # xs) = m" by (simp add: m_def)
    from Cons.IH [of x] obtain pre post where
      eq: "x # xs = pre @ m # post" and
      pre: "\<forall>y\<in>set pre. f m < f y" and
      post: "\<forall>y\<in>set post. f m \<le> f y" unfolding m_def by blast
    have "f m \<le> f x"
    proof (cases pre)
      case Nil
      with eq show ?thesis by simp
    next
      case (Cons p pre')
      with eq pre show ?thesis by auto
    qed
    with True have "f m < f b" by simp
    with pre have "\<forall>y\<in>set (b # pre). f m < f y" by simp
    moreover from eq have "b # x # xs = (b # pre) @ m # post" by simp
    ultimately show ?thesis using post unfolding mm by blast
  next
    case False
    define m where "m = py_min_key f b xs"
    from False have mm: "py_min_key f b (x # xs) = m" by (simp add: m_def)
    from Cons.IH [of b] obtain pre post where
      eq: "b # xs = pre @ m # post" and
      pre: "\<forall>y\<in>set pre. f m < f y" and
      post: "\<forall>y\<in>set post. f m \<le> f y" unfolding m_def by blast
    show ?thesis
    proof (cases pre)
      case Nil
      with eq have "m = b" and "xs = post" by simp_all
      with False post have "\<forall>y\<in>set (x # post). f m \<le> f y" by auto
      moreover from \<open>m = b\<close> \<open>xs = post\<close> have "b # x # xs = [] @ m # (x # post)" by simp
      moreover have "\<forall>y\<in>set []. f m < f y" by simp
      ultimately show ?thesis unfolding mm by blast
    next
      case (Cons p pre')
      with eq have "p = b" and xs: "xs = pre' @ m # post" by simp_all
      with pre Cons have "f m < f b" by simp
      with False have "f m < f x" by simp
      with pre Cons \<open>p = b\<close> have "\<forall>y\<in>set (b # x # pre'). f m < f y" by simp
      moreover from xs have "b # x # xs = (b # x # pre') @ m # post" by simp
      ultimately show ?thesis using post unfolding mm by blast
    qed
  qed
qed

lemma aligned_sorted: "aligned es \<Longrightarrow> sorted_wrt (\<lambda>a b. index a < index b) es"
  by (simp add: aligned_def sorted_wrt_iff_nth_less)

lemma get_next_entry_None: "get_next_entry es = None \<longleftrightarrow> es = []"
  by (simp add: get_next_entry_def split: list.splits)

lemma get_next_entry_Some:
  assumes "get_next_entry es = Some e"
  shows "\<exists>pre post. es = pre @ e # post \<and>
     (\<forall>x\<in>set pre. num_possible_words e < num_possible_words x) \<and>
     (\<forall>x\<in>set post. num_possible_words e \<le> num_possible_words x)"
proof -
  from assms obtain b xs where es: "es = b # xs" and e: "e = py_min_key num_possible_words b xs"
    by (auto simp: get_next_entry_def split: list.splits)
  from py_min_key_first [of b xs num_possible_words] es e show ?thesis by simp
qed

lemma get_next_entry_lowest_index:
  assumes "get_next_entry es = Some e" and "sorted_wrt (\<lambda>a b. index a < index b) es"
    and "e' \<in> set es" and "num_possible_words e' = num_possible_words e"
  shows "index e \<le> index e'"
proof -
  from get_next_entry_Some [OF assms(1)] obtain pre post where
    es: "es = pre @ e # post" and
    pre: "\<forall>x\<in>set pre. num_possible_words e < num_possible_words x" by blast
  from assms(3,4) es pre have "e' = e \<or> e' \<in> set post" by auto
  moreover from assms(2) es have "\<forall>x\<in>set post. index e < index x"
    by (simp add: sorted_wrt_append)
  ultimately show ?thesis by auto
qed

lemma play_reachable: "reachable lh wh s \<Longrightarrow> play s as = Some s' \<Longrightarrow> reachable lh wh s'"
proof (induction as arbitrary: s)
  case Nil
  then show ?case by simp
next
  case (Cons a as)
  from Cons.prems(2) obtain actions s1 where
    "get_possible_actions s = Inr actions" "a \<in> set actions" "take_action s a = Inr s1"
    "play s1 as = Some s'"
    by (auto split: sum.splits if_splits)
  with Cons.prems(1) Cons.IH show ?case by (blast intro: reachable.action)
qed

lemma play_from_initial_reachable:
  "play_from_initial lh wh as = Some s \<Longrightarrow> reachable lh wh s"
  by (auto simp: play_from_initial_def split: sum.splits
      intro: play_reachable reachable.initial)

lemma corner_run1:
  "play_from_initial (LayoutHandler_init corner_layout) corner_words [''DUCK''] = Some corner_state1"
  by code_simp

lemma corner_reachable1: "reachable (LayoutHandler_init corner_layout) corner_words corner_state1"
  using corner_run1 by (rule play_from_initial_reachable)

lemma next_entry_in_entries:
  assumes "s = CrosswordState_init es" and "next_entry_to_be_filled s = Some e"
  shows "e \<in> set (empty_entries s)" and "e \<in> set es" and "\<not> word_fixed e"
proof -
  from assms have "get_next_entry (filter (\<lambda>p. \<not> word_fixed p) es) = Some e"
    by (simp add: CrosswordState_init_def)
  from get_next_entry_Some [OF this] have "e \<in> set (filter (\<lambda>p. \<not> word_fixed p) es)"
    by (metis in_set_conv_decomp)
  with assms(1) show "e \<in> set (empty_entries s)" and "e \<in> set es" and "\<not> word_fixed e"
    by (simp_all add: CrosswordState_init_def)
qed

lemma corner_initial:
  "get_initial_crossword_state (LayoutHandler_init corner_layout) corner_words = Inr corner_state0"
  by code_simp

lemma square_run4:
  "map_option (\<lambda>s. map (\<lambda>e. (pattern e, num_letters_fixed e, length_e e, word_fixed e)) (entries s))
     (play_from_initial (LayoutHandler_init blank3) square_words [''ABC'', ''ADG'', ''BEH'', ''CFI''])
   = Some [(''ABC'', 3, 3, True), (''ADG'', 3, 3, True), (''BEH'', 3, 3, True),
           (''CFI'', 3, 3, True), (''DEF'', 3, 3, False), (''GHI'', 3, 3, False)]"
  by code_simp

lemma init_form_next:
  assumes "s = CrosswordState_init es"
  shows "next_entry_to_be_filled s = None \<longleftrightarrow> empty_entries s = []"
  using assms by (simp add: CrosswordState_init_def get_next_entry_None)

lemma non_terminal_actions:
  assumes "s = CrosswordState_init es" and "\<not> is_terminal s"
  shows "\<exists>a as. get_possible_actions s = Inr (a # as)"
proof -
  from assms(2) have ne: "empty_entries s \<noteq> []" by (simp add: is_terminal_def Let_def)
  with init_form_next [OF assms(1)] obtain e where e: "next_entry_to_be_filled s = Some e"
    by auto
  with assms(2) have "possible_words e \<noteq> []"
    by (simp add: is_terminal_def Let_def num_possible_words_def)
  then obtain a as where "possible_words e = a # as" by (cases "possible_words e") auto
  with e show ?thesis by (simp add: get_possible_actions_def)
qed

lemma take_action_init_form: "take_action s a = Inr s' \<Longrightarrow> s' = CrosswordState_init (entries s')"
  using take_action_Inr [of s a s'] by auto

lemma propagate_Inl: "propagate s a nn es deps = Inl e \<Longrightarrow> e = IndexError"
proof (induction deps arbitrary: es)
  case Nil
  then show ?case by simp
next
  case (Cons d deps)
  obtain cp ai ap where d: "d = (cp, ai, ap)" by (cases d) auto
  from Cons.prems Cons.IH show ?case
    unfolding d by (auto simp: Let_def split: if_splits)
qed

lemma take_action_Inl: "take_action s a = Inl e \<Longrightarrow> e = AttributeError \<or> e = IndexError"
  by (auto simp: take_action_def Let_def split: option.splits if_splits sum.splits
      dest: propagate_Inl)

lemma rollout_no_exception:
  assumes ret: "rollout_policy rng g s = Some out"
  shows "s = CrosswordState_init (entries s) \<longrightarrow> fst out \<noteq> Inl Exception"
proof (rule rollout_policy.raw_induct
    [where P = "\<lambda>rng g s out. s = CrosswordState_init (entries s) \<longrightarrow> fst out \<noteq> Inl Exception",
      OF _ ret])
  fix f :: "'a np_random \<Rightarrow> 'a \<Rightarrow> CrosswordState \<Rightarrow> ((py_error + nat) \<times> 'a) option"
  fix rng g st out
  assume IH: "\<And>rng g st out. f rng g st = Some out \<Longrightarrow>
      st = CrosswordState_init (entries st) \<longrightarrow> fst out \<noteq> Inl Exception"
    and eq: "(if is_terminal st then Some (Inr (get_reward st), g)
      else
        (case get_possible_actions st of
           Inl e \<Rightarrow> Some (Inl e, g)
         | Inr actions \<Rightarrow>
             if actions = [] then Some (Inl Exception, g)
             else
               (case take_action st (fst (np_random_choice rng g actions)) of
                  Inl e \<Rightarrow> Some (Inl e, snd (np_random_choice rng g actions))
                | Inr st' \<Rightarrow> f rng (snd (np_random_choice rng g actions)) st'))) = Some out"
  show "st = CrosswordState_init (entries st) \<longrightarrow> fst out \<noteq> Inl Exception"
  proof
    assume form: "st = CrosswordState_init (entries st)"
    show "fst out \<noteq> Inl Exception"
    proof (cases "is_terminal st")
      case True
      with eq show ?thesis by auto
    next
      case False
      from non_terminal_actions [OF form False] obtain a as where
        acts: "get_possible_actions st = Inr (a # as)" by blast
      let ?c = "np_random_choice rng g (a # as)"
      show ?thesis
      proof (cases "take_action st (fst ?c)")
        case (Inl e)
        with eq False acts have "out = (Inl e, snd ?c)" by simp
        moreover from Inl have "e \<noteq> Exception"
          by (auto dest: take_action_Inl)
        ultimately show ?thesis by simp
      next
        case (Inr st')
        with eq False acts have "f rng (snd ?c) st' = Some out" by simp
        moreover from Inr have "st' = CrosswordState_init (entries st')"
          by (rule take_action_init_form)
        ultimately show ?thesis using IH by blast
      qed
    qed
  qed
qed

lemma corner_reachable0: "reachable (LayoutHandler_init corner_layout) corner_words corner_state0"
  using corner_initial by (rule reachable.initial)

lemma corner_rollout:
  "rollout_policy ex_rng 0 corner_state1 = Some (Inr 2, Suc 0)"
proof -
  have t1: "\<not> is_terminal corner_state1" by code_simp
  have a1: "get_possible_actions corner_state1 = Inr [''DOG'']" by code_simp
  have c1: "np_random_choice ex_rng 0 [''DOG''] = (''DOG'', Suc 0)" by code_simp
  have s2: "take_action corner_state1 ''DOG'' = Inr corner_state2" by code_simp
  have t2: "is_terminal corner_state2" by code_simp
  have r2: "get_reward corner_state2 = 2" by code_simp
  have "rollout_policy ex_rng (Suc 0) corner_state2 = Some (Inr 2, Suc 0)"
    by (subst rollout_policy.simps) (simp add: t2 r2)
  then show ?thesis
    by (subst rollout_policy.simps) (simp add: t1 a1 c1 s2)
qed

section \<open>Lemmas about the search tree\<close>

inductive_cases ancestors_NilE: "ancestors h x []"

inductive_cases ancestors_ConsE: "ancestors h x (n # ps)"

inductive_cases ancestors_NoneE: "ancestors h None ps"

inductive_cases ancestors_SomeE: "ancestors h (Some n) ps"

lemma ancestors_frame:
  "ancestors h x ps \<Longrightarrow> (\<forall>m\<in>set ps. parent (h' m) = parent (h m)) \<Longrightarrow> ancestors h' x ps"
proof (induction rule: ancestors.induct)
  case (root h)
  show ?case by (rule ancestors.root)
next
  case (up h n ps)
  from up.prems have "parent (h' n) = parent (h n)" by simp
  moreover from up.IH up.prems have "ancestors h' (parent (h n)) ps" by simp
  ultimately show ?case by (metis ancestors.up)
qed

lemma ancestors_unique: "ancestors h x ps \<Longrightarrow> ancestors h x qs \<Longrightarrow> ps = qs"
proof (induction arbitrary: qs rule: ancestors.induct)
  case (root h)
  then show ?case by (auto elim: ancestors_NoneE)
next
  case (up h n ps)
  from up.prems obtain qs' where "qs = n # qs'" "ancestors h (parent (h n)) qs'"
    by (auto elim: ancestors_SomeE)
  with up.IH show ?case by simp
qed

lemma ancestors_suffix:
  "ancestors h x ps \<Longrightarrow> m \<in> set ps \<Longrightarrow> \<exists>qs. ancestors h (Some m) qs \<and> length qs \<le> length ps"
proof (induction rule: ancestors.induct)
  case (root h)
  then show ?case by simp
next
  case (up h n ps)
  show ?case
  proof (cases "m = n")
    case True
    from up.hyps have "ancestors h (Some n) (n # ps)" by (rule ancestors.up)
    with True show ?thesis by auto
  next
    case False
    with up.prems have "m \<in> set ps" by simp
    with up.IH obtain qs where "ancestors h (Some m) qs" "length qs \<le> length ps" by blast
    then show ?thesis by auto
  qed
qed

lemma ancestors_distinct: "ancestors h x ps \<Longrightarrow> distinct ps"
proof (induction rule: ancestors.induct)
  case (root h)
  show ?case by simp
next
  case (up h n ps)
  have "n \<notin> set ps"
  proof
    assume mem: "n \<in> set ps"
    from ancestors_suffix [OF up.hyps mem]
    obtain qs where q: "ancestors h (Some n) qs" "length qs \<le> length ps" by blast
    from up.hyps have "ancestors h (Some n) (n # ps)" by (rule ancestors.up)
    with q(1) have "qs = n # ps" by (rule ancestors_unique)
    with q(2) show False by simp
  qed
  with up.IH show ?case by simp
qed

lemma backpropagate_path:
  "ancestors h x ps \<Longrightarrow>
   \<exists>h'. backpropagate h x r = Some h' \<and>
        (\<forall>m. h' m = (if m \<in> set ps then visited r (h m) else h m))"
proof (induction ps arbitrary: h x)
  case Nil
  then have "x = None" by (auto elim: ancestors_NilE)
  then show ?case by (simp add: backpropagate.simps)
next
  case (Cons n ps)
  from Cons.prems have x: "x = Some n" and tail: "ancestors h (parent (h n)) ps"
    by (auto elim: ancestors_ConsE)
  from Cons.prems have "distinct (n # ps)" by (rule ancestors_distinct)
  then have fresh: "n \<notin> set ps" by simp
  let ?h1 = "h(n := visited r (h n))"
  from fresh have "\<forall>m\<in>set ps. parent (?h1 m) = parent (h m)" by auto
  with tail have "ancestors ?h1 (parent (h n)) ps" by (rule ancestors_frame)
  from Cons.IH [OF this] obtain h' where
    run: "backpropagate ?h1 (parent (h n)) r = Some h'" and
    res: "\<forall>m. h' m = (if m \<in> set ps then visited r (?h1 m) else ?h1 m)" by blast
  have "backpropagate h x r = backpropagate ?h1 (parent (h n)) r"
    unfolding x by (subst backpropagate.simps) (simp add: visited_def)
  with run have "backpropagate h x r = Some h'" by simp
  moreover have "h' m = (if m \<in> set (n # ps) then visited r (h m) else h m)" for m
    using res fresh by (cases "m = n") auto
  ultimately show ?case by blast
qed

lemma ex_tree_ancestors: "ancestors ex_tree (Some 1) [1, 0]"
proof -
  have p0: "parent (ex_tree 0) = None" and p1: "parent (ex_tree 1) = Some 0"
    by (simp_all add: ex_tree_def TreeNode_init_def)
  have "ancestors ex_tree (parent (ex_tree 0)) []"
    unfolding p0 by (rule ancestors.root)
  then have "ancestors ex_tree (Some 0) [0]" by (rule ancestors.up)
  then have "ancestors ex_tree (parent (ex_tree 1)) [0]" unfolding p1 .
  then show ?thesis by (rule ancestors.up)
qed

lemma corner_run1_deer:
  "take_action corner_state0 ''DEER'' = Inr corner_state1_deer"
  by code_simp

section \<open>Lemmas about the word index\<close>

lemma transformed_words_eq:
  "transformed_words wl raw = [map_func x. Str x \<leftarrow> raw, length x \<in> set wl]"
  unfolding transformed_words_def
proof (induction raw)
  case Nil
  show ?case by simp
next
  case (Cons r raw)
  then show ?case by (cases r) simp_all
qed

lemma upper_AZ_table_letters: "list_all (\<lambda>(cp, letters). list_all is_AZ letters) upper_AZ_table"
  by (simp add: upper_AZ_table_def is_AZ_def)

lemma upper_AZ_letters: "\<forall>c\<in>set (upper_AZ cp). is_AZ c"
proof (cases "map_of upper_AZ_table cp")
  case None
  then show ?thesis by (simp add: upper_AZ_def)
next
  case (Some letters)
  then have "(cp, letters) \<in> set upper_AZ_table" by (rule map_of_SomeD)
  with upper_AZ_table_letters have "list_all is_AZ letters" by (auto simp: list_all_iff)
  with Some show ?thesis by (simp add: upper_AZ_def list_all_iff)
qed

lemma map_func_letters: "\<forall>c\<in>set (map_func x). is_AZ c"
  using upper_AZ_letters by (auto simp: map_func_def)

lemma preprocess_words_subset:
  "set (fst (preprocess_words rng g wl mx raw)) \<subseteq> set (transformed_words wl raw)"
proof
  fix w assume w: "w \<in> set (fst (preprocess_words rng g wl mx raw))"
  define words where "words = sort (remdups (transformed_words wl raw))"
  define k where "k = (case mx of None \<Rightarrow> length words | Some m \<Rightarrow> min (length words) m)"
  define drawn where "drawn = fst (np_sample rng g (length words) k)"
  have k_le: "k \<le> length words"
    by (simp add: k_def split: option.splits)
  have "fst (preprocess_words rng g wl mx raw)
      = map (\<lambda>i. words ! (i mod length words)) (take k drawn)"
    unfolding preprocess_words_def Let_def words_def k_def drawn_def case_prod_beta by simp
  with w obtain i where i: "i \<in> set (take k drawn)" and wi: "w = words ! (i mod length words)"
    by auto
  have "0 < k"
  proof (rule ccontr)
    assume "\<not> 0 < k"
    with i show False by simp
  qed
  with k_le have "0 < length words" by linarith
  then have "i mod length words < length words" by (rule mod_less_divisor)
  with wi have "w \<in> set words" by simp
  then show "w \<in> set (transformed_words wl raw)" by (simp add: words_def)
qed

lemma convert_Cons:
  "convert_pattern_for_matching (c # p) =
     (if c = EMPTY_SYMBOL then ''[A-Z]'' else [c]) @ convert_pattern_for_matching p"
  by (simp add: convert_pattern_for_matching_def EMPTY_SYMBOL_FOR_PATTERN_MATCHING_def)

lemma re_fullmatch_convert:
  "CHR ''['' \<notin> set p \<Longrightarrow>
     re_fullmatch (convert_pattern_for_matching p) w \<longleftrightarrow> list_all2 slot_ok p w"
proof (induction p arbitrary: w)
  case Nil
  show ?case
    by (subst re_fullmatch.simps) (simp add: convert_pattern_for_matching_def)
next
  case (Cons c p)
  from Cons.prems have c: "c \<noteq> CHR ''[''" and p: "CHR ''['' \<notin> set p" by auto
  note IH = Cons.IH [OF p]
  show ?case
  proof (cases "c = EMPTY_SYMBOL")
    case True
    then have conv: "convert_pattern_for_matching (c # p) = ''[A-Z]'' @ convert_pattern_for_matching p"
      by (simp add: convert_Cons)
    have "re_fullmatch (convert_pattern_for_matching (c # p)) w \<longleftrightarrow>
        w \<noteq> [] \<and> is_AZ (hd w) \<and> re_fullmatch (convert_pattern_for_matching p) (tl w)"
      unfolding conv by (subst re_fullmatch.simps) simp
    with IH True show ?thesis
      by (cases w) (simp_all add: slot_ok_def)
  next
    case False
    then have conv: "convert_pattern_for_matching (c # p) = c # convert_pattern_for_matching p"
      by (simp add: convert_Cons)
    from c have "take 5 (c # convert_pattern_for_matching p) \<noteq> ''[A-Z]''"
      by (simp add: take_Cons')
    then have "re_fullmatch (convert_pattern_for_matching (c # p)) w \<longleftrightarrow>
        w \<noteq> [] \<and> hd w = c \<and> re_fullmatch (convert_pattern_for_matching p) (tl w)"
      unfolding conv by (subst re_fullmatch.simps) (simp del: take_Suc_Cons take_Cons_numeral)
    with IH False show ?thesis
      by (cases w) (auto simp: slot_ok_def)
  qed
qed

text \<open>What a word handler built by \<open>WordHandler_init\<close> offers for a length.\<close>

lemma words_by_length_Some:
  assumes "wh_words_by_length (fst (WordHandler_init rng g wl mx raw)) len = Some ws"
  shows "\<forall>w\<in>set ws. length w = len \<and> list_all is_AZ w"
proof
  fix w assume w: "w \<in> set ws"
  define clean where "clean = fst (preprocess_words rng g wl mx raw)"
  from assms have "map_of (map (\<lambda>len. (len, sort (filter (\<lambda>x. length x = len) clean))) wl) len = Some ws"
    by (simp add: WordHandler_init_def case_prod_beta separate_words_by_length_def clean_def)
  then have "(len, ws) \<in> set (map (\<lambda>len. (len, sort (filter (\<lambda>x. length x = len) clean))) wl)"
    by (rule map_of_SomeD)
  then have ws: "ws = sort (filter (\<lambda>x. length x = len) clean)" by auto
  with w have len: "length w = len" and "w \<in> set clean" by auto
  with preprocess_words_subset [of rng g wl mx raw] have "w \<in> set (transformed_words wl raw)"
    by (auto simp: clean_def)
  then obtain x where "w = map_func x"
    by (auto simp: transformed_words_eq split: raw_word.splits)
  with map_func_letters [of x] len show "length w = len \<and> list_all is_AZ w"
    by (simp add: list_all_iff)
qed

lemma extract_entries_scan:
  "extract_entries_from_layout lay0 =
     (map fst (scan_layout (replace_block_symbol lay0)),
      map snd (scan_layout (replace_block_symbol lay0)))"
  by (simp add: extract_entries_from_layout_def scan_layout_def Let_def)

lemma is_AZ_not_special: "is_AZ c \<Longrightarrow> c \<noteq> CHR ''['' \<and> c \<noteq> EMPTY_SYMBOL \<and> c \<noteq> BLOCK_SEPARATOR"
  by (auto simp: is_AZ_def EMPTY_SYMBOL_def BLOCK_SEPARATOR_def)

lemma plain_char_not_bracket: "plain_char c \<Longrightarrow> c \<noteq> CHR ''[''"
  by (auto simp: plain_char_def EMPTY_SYMBOL_def dest: is_AZ_not_special)

lemma entries_at_mem:
  assumes "(w, cs) \<in> set (entries_at lay r c)"
  shows "\<exists>orientation. w = word_from lay r c orientation \<and>
           cs = get_coordinates r c orientation (length w) \<and>
           MIN_WORD_LENGTH \<le> length w \<and>
           iloc lay r c \<noteq> [BLOCK_SEPARATOR] \<and>
           (orientation = ACROSS \<longrightarrow> c = 0 \<or> iloc lay r (c - 1) = [BLOCK_SEPARATOR]) \<and>
           (orientation = DOWN \<longrightarrow> r = 0 \<or> iloc lay (r - 1) c = [BLOCK_SEPARATOR])"
  using assms
  by (auto simp: entries_at_def Let_def split: if_splits)

lemma scan_layout_mem:
  assumes "(w, cs) \<in> set (scan_layout lay)"
  shows "\<exists>r c. r < shape0 lay \<and> c < shape1 lay \<and> (w, cs) \<in> set (entries_at lay r c)"
proof -
  from assms have "\<exists>r\<in>{0..<shape0 lay}. \<exists>c\<in>{0..<shape1 lay}. (w, cs) \<in> set (entries_at lay r c)"
    by (simp add: scan_layout_def)
  then obtain r c where "r \<in> {0..<shape0 lay}" "c \<in> {0..<shape1 lay}"
    "(w, cs) \<in> set (entries_at lay r c)" by (elim bexE)
  then have "r < shape0 lay \<and> c < shape1 lay \<and> (w, cs) \<in> set (entries_at lay r c)"
    by simp
  then show ?thesis by (intro exI)
qed

lemma length_get_coordinates [simp]: "length (get_coordinates r c orientation n) = n"
  by (cases orientation) simp_all

lemma set_apply_slice: "x \<in> set (apply_slice sl xs) \<Longrightarrow> x \<in> set xs"
  by (auto simp: apply_slice_def split: option.splits dest: in_set_dropD in_set_takeD)

lemma iloc_slices_cells:
  assumes "cell \<in> set (iloc_slices lay ss)"
  shows "\<exists>row\<in>set lay. cell \<in> set row"
proof -
  from assms obtain row where "row \<in> set (apply_slice (fst ss) lay)"
    and "cell \<in> set (apply_slice (snd ss) row)"
    unfolding iloc_slices_def set_concat set_map by blast
  then have "row \<in> set lay" "cell \<in> set row" by (auto dest: set_apply_slice)
  then show ?thesis by blast
qed

lemma word_from_chars:
  assumes "ch \<in> set (word_from lay r c orientation)"
  shows "ch \<noteq> BLOCK_SEPARATOR \<and> (\<exists>row\<in>set lay. \<exists>cell\<in>set row. ch \<in> set cell)"
proof -
  let ?cells = "iloc_slices lay (get_slice r c orientation)"
  from assms have nb: "ch \<noteq> BLOCK_SEPARATOR" and "ch \<in> set (concat ?cells)"
    by (auto simp: word_from_def Let_def split: if_splits dest: set_takeWhileD)
  then obtain cell where "cell \<in> set ?cells" "ch \<in> set cell" by auto
  with iloc_slices_cells [of cell lay] nb show ?thesis by blast
qed

lemma replace_block_symbol_chars:
  assumes "plain_layout lay0" and "row \<in> set (replace_block_symbol lay0)" and "cell \<in> set row"
    and "ch \<in> set cell"
  shows "plain_char ch \<or> ch = BLOCK_SEPARATOR"
proof -
  from assms(2) obtain row0 where row0: "row0 \<in> set lay0"
    and row: "row = map (\<lambda>c. if c = BLOCK_SYMBOL then [BLOCK_SEPARATOR] else c) row0"
    by (auto simp: replace_block_symbol_def)
  from assms(3) row obtain cell0 where cell0: "cell0 \<in> set row0"
    and cell: "cell = (if cell0 = BLOCK_SYMBOL then [BLOCK_SEPARATOR] else cell0)"
    by auto
  show ?thesis
  proof (cases "cell0 = BLOCK_SYMBOL")
    case True
    with cell assms(4) show ?thesis by simp
  next
    case False
    with cell assms(4) have "ch \<in> set cell0" by simp
    with assms(1) row0 cell0 show ?thesis
      unfolding plain_layout_def plain_char_def by blast
  qed
qed

lemma scan_layout_plain:
  assumes "plain_layout lay0" and "(w, cs) \<in> set (scan_layout (replace_block_symbol lay0))"
  shows "list_all plain_char w \<and> length cs = length w"
proof -
  let ?lay = "replace_block_symbol lay0"
  from scan_layout_mem [OF assms(2)] obtain r c where "(w, cs) \<in> set (entries_at ?lay r c)"
    by blast
  from entries_at_mem [OF this] obtain orientation where
    w: "w = word_from ?lay r c orientation" and
    cs: "cs = get_coordinates r c orientation (length w)" by blast
  have "plain_char ch" if "ch \<in> set w" for ch
  proof -
    from that w word_from_chars [of ch ?lay r c orientation]
    obtain row cell where "row \<in> set ?lay" "cell \<in> set row" "ch \<in> set cell"
      and "ch \<noteq> BLOCK_SEPARATOR" by blast
    with replace_block_symbol_chars [OF assms(1)] show ?thesis by blast
  qed
  with cs show ?thesis by (simp add: list_all_iff)
qed

lemma plain_no_bracket: "list_all plain_char p \<Longrightarrow> CHR ''['' \<notin> set p"
  by (auto simp: list_all_iff dest: plain_char_not_bracket)

lemma layout_handler_fields:
  assumes "i < lh_num_entries (LayoutHandler_init lay0)"
  shows "(lh_patterns (LayoutHandler_init lay0) ! i, lh_coordinates (LayoutHandler_init lay0) ! i)
           \<in> set (scan_layout (replace_block_symbol lay0))"
    and "lh_entry_lengths (LayoutHandler_init lay0) ! i
           = length (lh_coordinates (LayoutHandler_init lay0) ! i)"
    and "lh_dependencies (LayoutHandler_init lay0) ! i
           = get_dependencies (lh_coordinates (LayoutHandler_init lay0)) ! i"
proof -
  let ?found = "scan_layout (replace_block_symbol lay0)"
  have f: "lh_patterns (LayoutHandler_init lay0) = map fst ?found"
    "lh_coordinates (LayoutHandler_init lay0) = map snd ?found"
    "lh_num_entries (LayoutHandler_init lay0) = length ?found"
    "lh_entry_lengths (LayoutHandler_init lay0) = map length (map snd ?found)"
    "lh_dependencies (LayoutHandler_init lay0) = get_dependencies (map snd ?found)"
    by (simp_all add: LayoutHandler_init_def extract_entries_scan)
  from assms f have i: "i < length ?found" by simp
  then have "?found ! i \<in> set ?found" by simp
  with i show "(lh_patterns (LayoutHandler_init lay0) ! i, lh_coordinates (LayoutHandler_init lay0) ! i)
           \<in> set ?found" by (simp add: f)
  from i show "lh_entry_lengths (LayoutHandler_init lay0) ! i
           = length (lh_coordinates (LayoutHandler_init lay0) ! i)" by (simp add: f)
  show "lh_dependencies (LayoutHandler_init lay0) ! i
           = get_dependencies (lh_coordinates (LayoutHandler_init lay0)) ! i" by (simp add: f)
qed

lemma blank_pattern_match:
  assumes "filter (\<lambda>x. x \<noteq> EMPTY_SYMBOL) p = []" and "length w = length p" and "list_all is_AZ w"
  shows "list_all2 slot_ok p w"
proof -
  from assms(1) have "\<forall>ch\<in>set p. ch = EMPTY_SYMBOL" by (simp add: filter_empty_conv)
  with assms(2,3) show ?thesis
    by (auto simp: list_all2_conv_all_nth slot_ok_def list_all_length)
qed

lemma initial_entry_ok:
  assumes plain: "plain_layout lay0"
    and i: "i < lh_num_entries (LayoutHandler_init lay0)"
    and e: "initial_entry (LayoutHandler_init lay0) (fst (WordHandler_init rng g wl mx raw)) i = Inr e"
  shows "entry_ok (fst (WordHandler_init rng g wl mx raw)) e"
proof -
  let ?lh = "LayoutHandler_init lay0"
  let ?wh = "fst (WordHandler_init rng g wl mx raw)"
  define pat where "pat = lh_patterns ?lh ! i"
  define len where "len = lh_entry_lengths ?lh ! i"
  define nlf where "nlf = length (filter (\<lambda>x. x \<noteq> EMPTY_SYMBOL) pat)"
  from layout_handler_fields(1,2) [OF i] scan_layout_plain [OF plain]
  have pl: "list_all plain_char pat" and ln: "length pat = len"
    unfolding pat_def len_def by auto
  from e obtain init where init: "wh_words_by_length ?wh len = Some init"
    and e_eq: "e = \<lparr> index = i, length_e = len, coordinates = lh_coordinates ?lh ! i,
        dependencies = lh_dependencies ?lh ! i, pattern = pat,
        possible_words = (if nlf = len then [pat]
           else if nlf > 0 then filter (re_fullmatch (convert_pattern_for_matching pat)) init
           else init),
        num_letters_fixed = nlf, word_fixed = (nlf = len) \<rparr>"
    by (auto simp: initial_entry_def Let_def pat_def len_def nlf_def split: option.splits)
  from words_by_length_Some [OF init] have ws: "\<forall>w\<in>set init. length w = len \<and> list_all is_AZ w" .
  show ?thesis
  proof (cases "nlf = len")
    case True
    with e_eq pl ln show ?thesis by (simp add: entry_ok_def)
  next
    case False
    have "w \<in> set init \<and> list_all2 slot_ok pat w"
      if w: "w \<in> set (if nlf > 0 then filter (re_fullmatch (convert_pattern_for_matching pat)) init
           else init)" for w
    proof (cases "nlf > 0")
      case True
      with w have "w \<in> set init" and "re_fullmatch (convert_pattern_for_matching pat) w" by simp_all
      with re_fullmatch_convert [OF plain_no_bracket [OF pl]] show ?thesis by simp
    next
      case False
      with w have wi: "w \<in> set init" by simp
      from False have "filter (\<lambda>x. x \<noteq> EMPTY_SYMBOL) pat = []" by (simp add: nlf_def)
      moreover from wi ws ln have "length w = length pat" "list_all is_AZ w" by auto
      ultimately have "list_all2 slot_ok pat w" by (rule blank_pattern_match)
      with wi show ?thesis by simp
    qed
    with False e_eq pl ln init show ?thesis by (simp add: entry_ok_def)
  qed
qed

lemma is_AZ_plain: "is_AZ c \<Longrightarrow> plain_char c"
  by (simp add: plain_char_def)

lemma entry_ok_unfixedD:
  assumes "entry_ok wh e" and "\<not> word_fixed e"
  shows "\<exists>init. wh_words_by_length wh (length_e e) = Some init \<and>
           (\<forall>w\<in>set (possible_words e). w \<in> set init \<and> list_all2 slot_ok (pattern e) w)"
    and "length (pattern e) = length_e e" and "list_all plain_char (pattern e)"
  using assms by (simp_all add: entry_ok_def)

lemma valid_action_props:
  assumes ok: "\<forall>e\<in>set (entries s). entry_ok (fst (WordHandler_init rng g wl mx raw)) e"
    and form: "s = CrosswordState_init (entries s)"
    and nx: "next_entry_to_be_filled s = Some next_old"
    and acts: "get_possible_actions s = Inr actions" "a \<in> set actions"
  shows "length a = length_e next_old" and "list_all is_AZ a"
    and "list_all2 slot_ok (pattern next_old) a"
proof -
  let ?wh = "fst (WordHandler_init rng g wl mx raw)"
  from next_entry_in_entries [OF form nx] have mem: "next_old \<in> set (entries s)"
    and nf: "\<not> word_fixed next_old" by simp_all
  from acts nx have a: "a \<in> set (possible_words next_old)"
    by (simp add: get_possible_actions_def)
  from ok mem have eo: "entry_ok ?wh next_old" by blast
  from entry_ok_unfixedD(1) [OF eo nf] obtain init where
    init: "wh_words_by_length ?wh (length_e next_old) = Some init"
    and pw: "\<forall>w\<in>set (possible_words next_old). w \<in> set init \<and> list_all2 slot_ok (pattern next_old) w"
    by blast
  from entry_ok_unfixedD(2) [OF eo nf] have len: "length (pattern next_old) = length_e next_old" .
  from pw a have ai: "a \<in> set init" and m: "list_all2 slot_ok (pattern next_old) a" by auto
  from m len show "length a = length_e next_old" by (auto dest: list_all2_lengthD)
  from words_by_length_Some [OF init] ai show "list_all is_AZ a" by simp
  from m show "list_all2 slot_ok (pattern next_old) a" .
qed

lemma affected_entry_ok:
  assumes old: "entry_ok wh old" and nf: "\<not> word_fixed old"
    and a: "list_all is_AZ a" and cp: "cp < length a" and ap: "ap < length (pattern old)"
  shows "entry_ok wh (affected_entry s a (filled_entry next_old a) old cp ap)"
proof -
  let ?pat = "(pattern old)[ap := a ! cp]"
  from entry_ok_unfixedD(1) [OF old nf] obtain init where
    init: "wh_words_by_length wh (length_e old) = Some init"
    and pw: "\<forall>w\<in>set (possible_words old). w \<in> set init"
    by blast
  from entry_ok_unfixedD(2,3) [OF old nf]
  have len: "length (pattern old) = length_e old" and pl: "list_all plain_char (pattern old)" .
  from a cp have "plain_char (a ! cp)" by (simp add: list_all_length is_AZ_plain)
  with pl have pl': "list_all plain_char ?pat"
    by (auto simp: list_all_iff dest!: subsetD [OF set_update_subset_insert])
  have "pattern (filled_entry next_old a) ! cp = a ! cp" by (simp add: filled_entry_def)
  then show ?thesis
    using init pw len pl' re_fullmatch_convert [OF plain_no_bracket [OF pl']]
    by (auto simp: entry_ok_def affected_entry_def Let_def)
qed

lemma take_action_entry_ok:
  assumes ok: "\<forall>e\<in>set (entries s). entry_ok (fst (WordHandler_init rng g wl mx raw)) e"
    and form: "s = CrosswordState_init (entries s)"
    and acts: "get_possible_actions s = Inr actions" "a \<in> set actions"
    and step: "take_action s a = Inr s'"
  shows "\<forall>e\<in>set (entries s'). entry_ok (fst (WordHandler_init rng g wl mx raw)) e"
proof
  let ?wh = "fst (WordHandler_init rng g wl mx raw)"
  fix e assume e: "e \<in> set (entries s')"
  from take_action_Inr [OF step] obtain next_old es' where
    nx: "next_entry_to_be_filled s = Some next_old" and
    s': "s' = CrosswordState_init es'" and
    len: "length es' = length (entries s)" and
    nth: "\<forall>i<length (entries s). entry_after s a next_old i (es' ! i)"
    by blast
  note va = valid_action_props [OF ok form nx acts]
  from e s' len obtain i where i: "i < length (entries s)" and ei: "e = es' ! i"
    by (auto simp: in_set_conv_nth)
  from nth i ei have "entry_after s a next_old i e" by simp
  then consider "e = entries s ! i" | "e = filled_entry next_old a"
    | cp ai ap where "ai < length (entries s)" "\<not> word_fixed (entries s ! ai)"
        "cp < length a" "ap < length (pattern (entries s ! ai))"
        "e = affected_entry s a (filled_entry next_old a) (entries s ! ai) cp ap"
    unfolding entry_after_def by blast
  then show "entry_ok ?wh e"
  proof cases
    case 1
    with ok i show ?thesis by simp
  next
    case 2
    with va(1,2) show ?thesis
      by (auto simp: entry_ok_def filled_entry_def list_all_iff is_AZ_plain)
  next
    case 3
    from ok 3(1) have "entry_ok ?wh (entries s ! ai)" by simp
    from affected_entry_ok [OF this 3(2) va(2) 3(3,4)] 3(5) show ?thesis by simp
  qed
qed

lemma initial_entries_indexed:
  assumes "get_initial_crossword_state (LayoutHandler_init lay) wh = Inr s"
    and "e \<in> set (entries s)"
  shows "\<exists>i<lh_num_entries (LayoutHandler_init lay). initial_entry (LayoutHandler_init lay) wh i = Inr e"
proof -
  let ?lh = "LayoutHandler_init lay"
  let ?n = "lh_num_entries ?lh"
  from assms(1) obtain es where c: "collect (initial_entry ?lh wh) [0..<?n] = Inr es"
    and s: "s = CrosswordState_init es"
    by (auto simp: get_initial_crossword_state_def split: sum.splits)
  from assms(2) s obtain k where k: "k < length es" and e: "e = es ! k"
    by (auto simp: in_set_conv_nth)
  from collect_Inr [OF c] k have "k < ?n" "initial_entry ?lh wh ([0..<?n] ! k) = Inr (es ! k)"
    by simp_all
  with e show ?thesis by auto
qed

lemma reachable_entry_ok:
  assumes "plain_layout lay"
    and "reachable (LayoutHandler_init lay) (fst (WordHandler_init rng g wl mx raw)) s"
  shows "\<forall>e\<in>set (entries s). entry_ok (fst (WordHandler_init rng g wl mx raw)) e"
  using assms(2)
proof (induction "LayoutHandler_init lay" "fst (WordHandler_init rng g wl mx raw)" s
    rule: reachable.induct)
  case (initial s)
  show ?case
  proof
    fix e assume "e \<in> set (entries s)"
    from initial_entries_indexed [OF initial.hyps this] obtain i where
      "i < lh_num_entries (LayoutHandler_init lay)"
      "initial_entry (LayoutHandler_init lay) (fst (WordHandler_init rng g wl mx raw)) i = Inr e"
      by blast
    with assms(1) show "entry_ok (fst (WordHandler_init rng g wl mx raw)) e"
      by (rule initial_entry_ok)
  qed
next
  case (action s actions a s')
  from action.hyps(1) have "s = CrosswordState_init (entries s)" by (rule reachable_init_form)
  from take_action_entry_ok [OF action.hyps(2) this action.hyps(3,4,5)] show ?case .
qed

lemma shape_replace [simp]:
  "shape0 (replace_block_symbol lay) = shape0 lay"
  "shape1 (replace_block_symbol lay) = shape1 lay"
  by (simp_all add: shape0_def shape1_def replace_block_symbol_def split: list.splits)

lemma blank_unit_grid:
  assumes "blank_layout lay"
  shows "unit_grid (replace_block_symbol lay)"
proof -
  have "length row = shape1 lay" if "row \<in> set (replace_block_symbol lay)" for row
    using that assms by (auto simp: replace_block_symbol_def blank_layout_def)
  moreover have "cell = [EMPTY_SYMBOL] \<or> cell = [BLOCK_SEPARATOR]"
    if "row \<in> set (replace_block_symbol lay)" "cell \<in> set row" for row cell
  proof -
    from that obtain row0 cell0 where "row0 \<in> set lay" "cell0 \<in> set row0"
      and "cell = (if cell0 = BLOCK_SYMBOL then [BLOCK_SEPARATOR] else cell0)"
      by (auto simp: replace_block_symbol_def)
    with assms show ?thesis by (auto simp: blank_layout_def)
  qed
  ultimately show ?thesis by (simp add: unit_grid_def)
qed

lemma blank_plain:
  assumes "blank_layout lay"
  shows "plain_layout lay"
  unfolding plain_layout_def
proof (intro ballI)
  fix row cell ch assume "row \<in> set lay" "cell \<in> set row" "ch \<in> set cell"
  with assms have "cell = [EMPTY_SYMBOL] \<or> cell = BLOCK_SYMBOL"
    unfolding blank_layout_def by blast
  with \<open>ch \<in> set cell\<close> show "ch = EMPTY_SYMBOL \<or> is_AZ ch"
    by (auto simp: BLOCK_SYMBOL_def)
qed

lemma unit_grid_cell:
  assumes "unit_grid lay" and "r < shape0 lay" and "c < shape1 lay"
  shows "c < length (lay ! r)" and "iloc lay r c = [hd (iloc lay r c)]"
    and "iloc lay r c = [BLOCK_SEPARATOR] \<longleftrightarrow> hd (iloc lay r c) = BLOCK_SEPARATOR"
proof -
  from assms(2) have row: "lay ! r \<in> set lay" by (simp add: shape0_def)
  with assms(1,3) show c: "c < length (lay ! r)" by (simp add: unit_grid_def)
  then have "lay ! r ! c \<in> set (lay ! r)" by simp
  with assms(1) row have "lay ! r ! c = [EMPTY_SYMBOL] \<or> lay ! r ! c = [BLOCK_SEPARATOR]"
    unfolding unit_grid_def by blast
  then show "iloc lay r c = [hd (iloc lay r c)]"
    and "iloc lay r c = [BLOCK_SEPARATOR] \<longleftrightarrow> hd (iloc lay r c) = BLOCK_SEPARATOR"
    by (auto simp: iloc_def)
qed

lemma concat_unit_cells:
  assumes "\<forall>cell\<in>set cells. length cell = Suc 0"
  shows "concat cells = map hd cells"
  using assms
proof (induction cells)
  case Nil
  show ?case by simp
next
  case (Cons cell cells)
  from Cons.prems have "length cell = Suc 0" by simp
  then have "cell = [hd cell]" by (cases cell) simp_all
  with Cons show ?case by (metis append_Cons append_Nil concat.simps(2) list.set_intros(2) list.simps(9))
qed

lemma word_from_takeWhile:
  "word_from lay r c orientation =
     takeWhile (\<lambda>ch. ch \<noteq> BLOCK_SEPARATOR) (concat (iloc_slices lay (get_slice r c orientation)))"
proof -
  define xs where "xs = concat (iloc_slices lay (get_slice r c orientation))"
  show ?thesis
  proof (cases "BLOCK_SEPARATOR \<in> set xs")
    case True
    then show ?thesis unfolding word_from_def Let_def xs_def [symmetric] by simp
  next
    case False
    then have "takeWhile (\<lambda>ch. ch \<noteq> BLOCK_SEPARATOR) xs = xs"
      by (auto simp: takeWhile_eq_all_conv)
    with False show ?thesis unfolding word_from_def Let_def xs_def [symmetric]
      by (simp only: if_False)
  qed
qed

lemma across_slice:
  assumes "r < shape0 lay"
  shows "iloc_slices lay (get_slice r c ACROSS) = drop c (lay ! r)"
proof -
  from assms have "drop r (take (Suc r) lay) = [lay ! r]"
    by (simp add: shape0_def take_Suc_conv_app_nth)
  then show ?thesis by (simp add: iloc_slices_def apply_slice_def)
qed

lemma down_slice:
  assumes "unit_grid lay" and "c < shape1 lay"
  shows "iloc_slices lay (get_slice r c DOWN) = map (\<lambda>row. row ! c) (drop r lay)"
proof -
  have one: "apply_slice (c, Some (Suc c)) row = [row ! c]" if "row \<in> set (drop r lay)" for row
  proof -
    from that have "row \<in> set lay" by (rule in_set_dropD)
    with assms have "c < length row" by (simp add: unit_grid_def)
    then show ?thesis by (simp add: apply_slice_def take_Suc_conv_app_nth)
  qed
  have fs: "apply_slice (r, None) lay = drop r lay" by (simp add: apply_slice_def)
  have "iloc_slices lay (get_slice r c DOWN)
      = concat (map (apply_slice (c, Some (Suc c))) (drop r lay))"
    by (simp add: iloc_slices_def fs)
  also have "map (apply_slice (c, Some (Suc c))) (drop r lay) = map (\<lambda>row. [row ! c]) (drop r lay)"
    by (rule map_cong [OF refl]) (rule one)
  also have "concat (map (\<lambda>row. [row ! c]) (drop r lay)) = map (\<lambda>row. row ! c) (drop r lay)"
    by (induction "drop r lay") simp_all
  finally show ?thesis .
qed

lemma get_coordinates_cell_of:
  "get_coordinates r c orientation n = map (cell_of r c orientation) [0..<n]"
  by (cases orientation) simp_all

lemma takeWhile_nth_holds:
  assumes "k < length (takeWhile P xs)"
  shows "k < length xs" and "P (xs ! k)"
proof -
  from assms show "k < length xs"
    by (meson length_takeWhile_le less_le_trans)
  from assms have "takeWhile P xs ! k \<in> set (takeWhile P xs)" by simp
  then have "P (takeWhile P xs ! k)" by (auto dest: set_takeWhileD)
  with assms show "P (xs ! k)" by (simp add: takeWhile_nth)
qed

lemma word_from_run:
  assumes ug: "unit_grid lay" and r: "r < shape0 lay" and c: "c < shape1 lay"
    and k: "k < length (word_from lay r c orientation)"
  shows "\<not> blocked lay (fst (cell_of r c orientation k)) (snd (cell_of r c orientation k))"
proof (cases orientation)
  case ACROSS
  let ?cells = "drop c (lay ! r)"
  from r have row: "lay ! r \<in> set lay" by (simp add: shape0_def)
  with ug have len: "length (lay ! r) = shape1 lay" by (simp add: unit_grid_def)
  have "\<forall>cell\<in>set ?cells. length cell = Suc 0"
  proof
    fix cell assume "cell \<in> set ?cells"
    then have "cell \<in> set (lay ! r)" by (rule in_set_dropD)
    with ug row have "cell = [EMPTY_SYMBOL] \<or> cell = [BLOCK_SEPARATOR]"
      unfolding unit_grid_def by blast
    then show "length cell = Suc 0" by auto
  qed
  then have cc: "concat ?cells = map hd ?cells" by (rule concat_unit_cells)
  have sl: "iloc_slices lay (get_slice r c orientation) = ?cells"
    unfolding ACROSS by (rule across_slice [OF r])
  have w: "word_from lay r c orientation
      = takeWhile (\<lambda>ch. ch \<noteq> BLOCK_SEPARATOR) (map hd ?cells)"
    unfolding word_from_takeWhile sl cc ..
  from takeWhile_nth_holds [OF k [unfolded w]]
  have kc: "k < length ?cells" and "map hd ?cells ! k \<noteq> BLOCK_SEPARATOR" by simp_all
  then have ck: "c + k < shape1 lay" and "hd (lay ! r ! (c + k)) \<noteq> BLOCK_SEPARATOR"
    using len by simp_all
  with unit_grid_cell(3) [OF ug r ck] ACROSS show ?thesis
    by (simp add: blocked_def iloc_def)
next
  case DOWN
  let ?cells = "map (\<lambda>row. row ! c) (drop r lay)"
  have "\<forall>cell\<in>set ?cells. length cell = Suc 0"
  proof
    fix cell assume "cell \<in> set ?cells"
    then obtain row where "row \<in> set (drop r lay)" and cell: "cell = row ! c" by auto
    then have row: "row \<in> set lay" by (auto dest: in_set_dropD)
    with ug c have "c < length row" by (simp add: unit_grid_def)
    with cell have "cell \<in> set row" by simp
    with ug row have "cell = [EMPTY_SYMBOL] \<or> cell = [BLOCK_SEPARATOR]"
      unfolding unit_grid_def by blast
    then show "length cell = Suc 0" by auto
  qed
  then have cc: "concat ?cells = map hd ?cells" by (rule concat_unit_cells)
  have sl: "iloc_slices lay (get_slice r c orientation) = ?cells"
    unfolding DOWN by (rule down_slice [OF ug c])
  have w: "word_from lay r c orientation
      = takeWhile (\<lambda>ch. ch \<noteq> BLOCK_SEPARATOR) (map hd ?cells)"
    unfolding word_from_takeWhile sl cc ..
  from takeWhile_nth_holds [OF k [unfolded w]]
  have kc: "k < length ?cells" and "map hd ?cells ! k \<noteq> BLOCK_SEPARATOR" by simp_all
  then have rk: "r + k < shape0 lay" and "hd (lay ! (r + k) ! c) \<noteq> BLOCK_SEPARATOR"
    by (simp_all add: shape0_def)
  with unit_grid_cell(3) [OF ug rk c] DOWN show ?thesis
    by (simp add: blocked_def iloc_def)
qed

lemma scan_layout_run:
  assumes ug: "unit_grid lay" and mem: "(w, cs) \<in> set (scan_layout lay)"
  shows "\<exists>orientation r c. r < shape0 lay \<and> c < shape1 lay \<and>
           w = word_from lay r c orientation \<and>
           cs = get_coordinates r c orientation (length w) \<and>
           MIN_WORD_LENGTH \<le> length w \<and>
           is_run lay orientation r c (length w)"
proof -
  from scan_layout_mem [OF mem] obtain r c where r: "r < shape0 lay" and c: "c < shape1 lay"
    and at: "(w, cs) \<in> set (entries_at lay r c)" by blast
  from entries_at_mem [OF at] obtain orientation where
    w: "w = word_from lay r c orientation" and
    cs: "cs = get_coordinates r c orientation (length w)" and
    mn: "MIN_WORD_LENGTH \<le> length w" and
    st: "orientation = ACROSS \<longrightarrow> c = 0 \<or> iloc lay r (c - 1) = [BLOCK_SEPARATOR]"
        "orientation = DOWN \<longrightarrow> r = 0 \<or> iloc lay (r - 1) c = [BLOCK_SEPARATOR]"
    by blast
  have "\<not> blocked lay (fst (cell_of r c orientation k)) (snd (cell_of r c orientation k))"
    if "k < length w" for k
    using word_from_run [OF ug r c] that w by simp
  with st have "is_run lay orientation r c (length w)"
    by (cases orientation) (simp_all add: is_run_def blocked_def)
  with r c w cs mn show ?thesis by blast
qed

lemma run_share_start:
  assumes "is_run lay orientation r1 c1 n1" and "is_run lay orientation r2 c2 n2"
    and "k1 < n1" and "k2 < n2"
    and "cell_of r1 c1 orientation k1 = cell_of r2 c2 orientation k2"
  shows "r1 = r2 \<and> c1 = c2"
proof (cases orientation)
  case ACROSS
  with assms(5) have r: "r1 = r2" and sum: "c1 + k1 = c2 + k2" by simp_all
  have "c1 = c2"
  proof (rule ccontr)
    assume ne: "c1 \<noteq> c2"
    show False
    proof (cases "c1 < c2")
      case True
      with assms(2) ACROSS have "blocked lay r2 (c2 - 1)" by (simp add: is_run_def)
      moreover from True sum assms(3) have "c2 - 1 - c1 < n1" by simp
      with assms(1) ACROSS have "\<not> blocked lay r1 (c1 + (c2 - 1 - c1))" by (simp add: is_run_def)
      with True have "\<not> blocked lay r1 (c2 - 1)" by simp
      ultimately show False using r by simp
    next
      case False
      with ne have lt: "c2 < c1" by simp
      with assms(1) ACROSS have "blocked lay r1 (c1 - 1)" by (simp add: is_run_def)
      moreover from lt sum assms(4) have "c1 - 1 - c2 < n2" by simp
      with assms(2) ACROSS have "\<not> blocked lay r2 (c2 + (c1 - 1 - c2))" by (simp add: is_run_def)
      with lt have "\<not> blocked lay r2 (c1 - 1)" by simp
      ultimately show False using r by simp
    qed
  qed
  with r show ?thesis by simp
next
  case DOWN
  with assms(5) have c: "c1 = c2" and sum: "r1 + k1 = r2 + k2" by simp_all
  have "r1 = r2"
  proof (rule ccontr)
    assume ne: "r1 \<noteq> r2"
    show False
    proof (cases "r1 < r2")
      case True
      with assms(2) DOWN have "blocked lay (r2 - 1) c2" by (simp add: is_run_def)
      moreover from True sum assms(3) have "r2 - 1 - r1 < n1" by simp
      with assms(1) DOWN have "\<not> blocked lay (r1 + (r2 - 1 - r1)) c1" by (simp add: is_run_def)
      with True have "\<not> blocked lay (r2 - 1) c1" by simp
      ultimately show False using c by simp
    next
      case False
      with ne have lt: "r2 < r1" by simp
      with assms(1) DOWN have "blocked lay (r1 - 1) c1" by (simp add: is_run_def)
      moreover from lt sum assms(4) have "r1 - 1 - r2 < n2" by simp
      with assms(2) DOWN have "\<not> blocked lay (r2 + (r1 - 1 - r2)) c2" by (simp add: is_run_def)
      with lt have "\<not> blocked lay (r1 - 1) c2" by simp
      ultimately show False using c by simp
    qed
  qed
  with c show ?thesis by simp
qed

lemma distinct_concat_map_tag:
  assumes "distinct xs" and "\<And>x. x \<in> set xs \<Longrightarrow> distinct (f x)"
    and "\<And>x y. x \<in> set xs \<Longrightarrow> y \<in> set (f x) \<Longrightarrow> tag y = x"
  shows "distinct (concat (map f xs))"
  using assms
proof (induction xs)
  case Nil
  show ?case by simp
next
  case (Cons x xs)
  from Cons.prems have IH: "distinct (concat (map f xs))"
    by (intro Cons.IH) auto
  have "set (f x) \<inter> set (concat (map f xs)) = {}"
  proof (rule ccontr)
    assume "set (f x) \<inter> set (concat (map f xs)) \<noteq> {}"
    then obtain y x' where y: "y \<in> set (f x)" and x': "x' \<in> set xs" "y \<in> set (f x')" by auto
    from Cons.prems(3) [of x y] y have "tag y = x" by simp
    moreover from Cons.prems(3) [of x' y] x' have "tag y = x'" by simp
    ultimately show False using x'(1) Cons.prems(1) by simp
  qed
  with IH Cons.prems(2) [of x] show ?case by simp
qed

lemma entries_at_coords:
  assumes "(w, cs) \<in> set (entries_at lay r c)"
  shows "hd cs = (r, c)"
proof -
  from entries_at_mem [OF assms] obtain orientation where
    cs: "cs = get_coordinates r c orientation (length w)" and "MIN_WORD_LENGTH \<le> length w" by blast
  then have "0 < length w" by (auto simp: MIN_WORD_LENGTH_def)
  then have "[0..<length w] = 0 # [Suc 0..<length w]" by (simp add: upt_conv_Cons)
  with cs show ?thesis
    by (cases orientation) simp_all
qed

lemma entries_at_distinct: "distinct (map snd (entries_at lay r c))"
proof -
  have ne: "get_coordinates r c ACROSS n \<noteq> get_coordinates r c DOWN m" if "3 \<le> n" for n m
  proof
    assume eq: "get_coordinates r c ACROSS n = get_coordinates r c DOWN m"
    then have nm: "n = m" by (metis length_get_coordinates)
    from eq have "get_coordinates r c ACROSS n ! 1 = get_coordinates r c DOWN m ! 1"
      by (rule arg_cong)
    with that nm show False by simp
  qed
  show ?thesis
    using ne by (auto simp: entries_at_def Let_def MIN_WORD_LENGTH_def)
qed

lemma scan_layout_distinct: "distinct (map snd (scan_layout lay))"
proof -
  let ?cell = "\<lambda>r c. map snd (entries_at lay r c)"
  let ?row = "\<lambda>r. concat (map (?cell r) [0..<shape1 lay])"
  have eq: "map snd (scan_layout lay) = concat (map ?row [0..<shape0 lay])"
    by (simp add: scan_layout_def map_concat comp_def)
  have row_distinct: "distinct (?row r)" for r
    by (rule distinct_concat_map_tag [where tag = "\<lambda>cs. snd (hd cs)"])
      (auto simp: entries_at_distinct dest: entries_at_coords)
  have row_tag: "fst (hd cs) = r" if "cs \<in> set (?row r)" for cs r
  proof -
    from that obtain c where "cs \<in> set (?cell r c)" by auto
    then obtain w where "(w, cs) \<in> set (entries_at lay r c)" by auto
    from entries_at_coords [OF this] show ?thesis by simp
  qed
  show ?thesis unfolding eq
  proof (rule distinct_concat_map_tag [where tag = "\<lambda>cs. fst (hd cs)"])
    show "distinct [0..<shape0 lay]" by simp
    show "distinct (?row r)" for r by (rule row_distinct)
    show "fst (hd cs) = r" if "cs \<in> set (?row r)" for r cs using that by (rule row_tag)
  qed
qed

section \<open>Claims\<close>

text \<open>
  Claim C10. In every reachable state the entries list is aligned with the entry
  indices: the entry at position \<open>i\<close> has index \<open>i\<close>. So the entry that \<open>take_action\<close>
  is about to fix sits at the position named by its own index, which is where the
  replacement is written, and every state that \<open>take_action\<close> returns (for any action)
  has as many entries and is aligned again.
\<close>

theorem entries_index_aligned:
  assumes "reachable (LayoutHandler_init lay) wh s"
  shows "(\<forall>i<length (entries s). index (entries s ! i) = i) \<and>
         (\<forall>e. next_entry_to_be_filled s = Some e \<longrightarrow>
            index e < length (entries s) \<and> entries s ! index e = e) \<and>
         (\<forall>a s'. take_action s a = Inr s' \<longrightarrow>
            length (entries s') = length (entries s) \<and>
            (\<forall>i<length (entries s'). index (entries s' ! i) = i))"
proof (intro conjI allI impI)
  from assms have al: "aligned (entries s)" by (rule reachable_aligned)
  from assms have form: "s = CrosswordState_init (entries s)" by (rule reachable_init_form)
  show "index (entries s ! i) = i" if "i < length (entries s)" for i
    using al that by (simp add: aligned_def)
  {
    fix e assume "next_entry_to_be_filled s = Some e"
    with form have "e \<in> set (entries s)" by (rule next_entry_in_entries)
    then obtain k where k: "k < length (entries s)" and e: "entries s ! k = e"
      by (auto simp: in_set_conv_nth)
    with al have "index e = k" by (auto simp: aligned_def)
    with k e show "index e < length (entries s)" and "entries s ! index e = e" by simp_all
  }
  {
    fix a s' assume t: "take_action s a = Inr s'"
    from take_action_Inr [OF t] show "length (entries s') = length (entries s)" by auto
    from take_action_aligned [OF t al]
    show "index (entries s' ! i) = i" if "i < length (entries s')" for i
      using that by (simp add: aligned_def)
  }
qed

theorem entries_index_aligned_witness:
  "reachable (LayoutHandler_init corner_layout) corner_words corner_state1 \<and>
   length (entries corner_state1) = 2 \<and>
   index (entries corner_state1 ! 1) = 1 \<and>
   map_option index (next_entry_to_be_filled corner_state1) = Some 1"
proof -
  have len: "length (entries corner_state1) = 2" by (simp add: corner_state1_def)
  have nx: "map_option index (next_entry_to_be_filled corner_state1) = Some 1" by code_simp
  from entries_index_aligned [OF corner_reachable1]
  have "\<forall>i<length (entries corner_state1). index (entries corner_state1 ! i) = i" by blast
  with len have "index (entries corner_state1 ! 1) = 1" by simp
  with corner_reachable1 len nx show ?thesis by simp
qed

text \<open>
  Claim C3, as amended. In the initial state \<open>word_fixed\<close> holds exactly when all
  letters are fixed. In every reachable state a fixed word has all its letters fixed;
  the converse is not kept by \<open>take_action\<close>, which marks only the entry it fills.
\<close>

theorem word_fixed_implies_all_letters_fixed:
  "(get_initial_crossword_state lh wh = Inr s \<longrightarrow>
      (\<forall>e\<in>set (entries s). word_fixed e \<longleftrightarrow> num_letters_fixed e = length_e e)) \<and>
   (reachable lh wh s \<longrightarrow>
      (\<forall>e\<in>set (entries s). word_fixed e \<longrightarrow> num_letters_fixed e = length_e e))"
proof (intro conjI impI ballI)
  fix e assume "get_initial_crossword_state lh wh = Inr s" and "e \<in> set (entries s)"
  then obtain i where "initial_entry lh wh i = Inr e" by (blast dest: initial_entries)
  then show "word_fixed e \<longleftrightarrow> num_letters_fixed e = length_e e" by (rule initial_entry_fixed)
next
  fix e assume "reachable lh wh s" and "e \<in> set (entries s)" and "word_fixed e"
  then show "num_letters_fixed e = length_e e" by (rule reachable_fixed_complete)
qed

theorem word_fixed_implies_all_letters_fixed_witness:
  "get_initial_crossword_state (LayoutHandler_init corner_layout) corner_words = Inr corner_state0 \<and>
   \<not> word_fixed (entries corner_state0 ! 1) \<and>
   num_letters_fixed (entries corner_state0 ! 1) \<noteq> length_e (entries corner_state0 ! 1) \<and>
   reachable (LayoutHandler_init corner_layout) corner_words corner_state1 \<and>
   word_fixed (entries corner_state1 ! 0) \<and>
   num_letters_fixed (entries corner_state1 ! 0) = length_e (entries corner_state1 ! 0)"
proof -
  have m0: "entries corner_state0 ! 1 \<in> set (entries corner_state0)"
    by (simp add: corner_state0_def)
  have nf: "\<not> word_fixed (entries corner_state0 ! 1)"
    by (simp add: corner_state0_def)
  have m1: "entries corner_state1 ! 0 \<in> set (entries corner_state1)"
    by (simp add: corner_state1_def)
  have f1: "word_fixed (entries corner_state1 ! 0)"
    by (simp add: corner_state1_def)
  from word_fixed_implies_all_letters_fixed
    [of "LayoutHandler_init corner_layout" corner_words corner_state0]
    corner_initial m0 nf
  have a: "num_letters_fixed (entries corner_state0 ! 1) \<noteq> length_e (entries corner_state0 ! 1)"
    by blast
  from word_fixed_implies_all_letters_fixed
    [of "LayoutHandler_init corner_layout" corner_words corner_state1]
    corner_reachable1 m1 f1
  have b: "num_letters_fixed (entries corner_state1 ! 0) = length_e (entries corner_state1 ! 0)"
    by blast
  from corner_initial nf a corner_reachable1 f1 b show ?thesis by blast
qed

text \<open>
  The claim C3 as stated fails: on the blank 3 x 3 grid, after the first row and the
  three columns have been filled, the second row has its three letters fixed through
  the crossings and is not marked \<open>word_fixed\<close>.
\<close>

theorem word_fixed_iff_counterexample:
  "\<not> (\<forall>s. reachable (LayoutHandler_init blank3) square_words s \<longrightarrow>
        (\<forall>e\<in>set (entries s). word_fixed e \<longleftrightarrow> num_letters_fixed e = length_e e))"
proof
  assume claim: "\<forall>s. reachable (LayoutHandler_init blank3) square_words s \<longrightarrow>
        (\<forall>e\<in>set (entries s). word_fixed e \<longleftrightarrow> num_letters_fixed e = length_e e)"
  from square_run4 obtain s where
    run: "play_from_initial (LayoutHandler_init blank3) square_words
            [''ABC'', ''ADG'', ''BEH'', ''CFI''] = Some s" and
    es: "map (\<lambda>e. (pattern e, num_letters_fixed e, length_e e, word_fixed e)) (entries s)
         = [(''ABC'', 3, 3, True), (''ADG'', 3, 3, True), (''BEH'', 3, 3, True),
            (''CFI'', 3, 3, True), (''DEF'', 3, 3, False), (''GHI'', 3, 3, False)]"
    by auto
  from arg_cong [OF es, of length] have len: "length (entries s) = 6" by simp
  from es have "map (\<lambda>e. (pattern e, num_letters_fixed e, length_e e, word_fixed e)) (entries s) ! 4
    = (''DEF'', 3, 3, False)" by simp
  with len have e4: "num_letters_fixed (entries s ! 4) = 3" "length_e (entries s ! 4) = 3"
    "\<not> word_fixed (entries s ! 4)" by simp_all
  from len have "entries s ! 4 \<in> set (entries s)" by simp
  moreover from run have "reachable (LayoutHandler_init blank3) square_words s"
    by (rule play_from_initial_reachable)
  ultimately have "word_fixed (entries s ! 4) \<longleftrightarrow>
      num_letters_fixed (entries s ! 4) = length_e (entries s ! 4)"
    using claim by blast
  with e4 show False by simp
qed

text \<open>
  Claim C4. In every state the solver builds, \<open>next_entry_to_be_filled\<close> is \<open>None\<close>
  exactly when there is no empty entry; otherwise it is an empty entry with the least
  number of possible words, and among the empty entries with that number it is the one
  with the lowest index (no other entry has its index).
\<close>

theorem next_entry_most_constrained:
  assumes "reachable (LayoutHandler_init lay) wh s"
  shows "empty_entries s = filter (\<lambda>p. \<not> word_fixed p) (entries s) \<and>
         (next_entry_to_be_filled s = None \<longleftrightarrow> empty_entries s = []) \<and>
         (\<forall>e. next_entry_to_be_filled s = Some e \<longrightarrow>
            e \<in> set (empty_entries s) \<and>
            (\<forall>e'\<in>set (empty_entries s). num_possible_words e \<le> num_possible_words e') \<and>
            (\<forall>e'\<in>set (empty_entries s).
               num_possible_words e' = num_possible_words e \<longrightarrow>
               index e \<le> index e' \<and> (index e' = index e \<longrightarrow> e' = e)))"
proof -
  from assms have al: "aligned (entries s)" by (rule reachable_aligned)
  from assms have form: "s = CrosswordState_init (entries s)" by (rule reachable_init_form)
  let ?E = "filter (\<lambda>p. \<not> word_fixed p) (entries s)"
  from form have emp: "empty_entries s = ?E"
    by (metis CrosswordState.select_convs(2) CrosswordState_init_def)
  from form have nxt: "next_entry_to_be_filled s = get_next_entry ?E"
    by (metis CrosswordState.select_convs(5) CrosswordState_init_def)
  from al have srt: "sorted_wrt (\<lambda>a b. index a < index b) ?E"
    by (intro sorted_wrt_filter aligned_sorted)
  have none: "next_entry_to_be_filled s = None \<longleftrightarrow> empty_entries s = []"
    using form by (rule init_form_next)
  have some: "e \<in> set (empty_entries s) \<and>
      (\<forall>e'\<in>set (empty_entries s). num_possible_words e \<le> num_possible_words e') \<and>
      (\<forall>e'\<in>set (empty_entries s).
         num_possible_words e' = num_possible_words e \<longrightarrow>
         index e \<le> index e' \<and> (index e' = index e \<longrightarrow> e' = e))"
    if e: "next_entry_to_be_filled s = Some e" for e
  proof -
    from e nxt have g: "get_next_entry ?E = Some e" by simp
    from get_next_entry_Some [OF g] obtain pre post where
      dec: "?E = pre @ e # post" and
      pre: "\<forall>x\<in>set pre. num_possible_words e < num_possible_words x" and
      post: "\<forall>x\<in>set post. num_possible_words e \<le> num_possible_words x" by blast
    from dec have mem: "e \<in> set ?E" by (metis in_set_conv_decomp)
    have least: "num_possible_words e \<le> num_possible_words e'" if "e' \<in> set ?E" for e'
    proof -
      from that dec have "e' \<in> set pre \<or> e' = e \<or> e' \<in> set post"
        by (metis Un_iff set_append set_ConsD)
      with pre post show ?thesis by auto
    qed
    have low: "index e \<le> index e' \<and> (index e' = index e \<longrightarrow> e' = e)"
      if m: "e' \<in> set ?E" and t: "num_possible_words e' = num_possible_words e" for e'
    proof -
      from get_next_entry_lowest_index [OF g srt m t] have le: "index e \<le> index e'" .
      from m obtain i where i: "i < length (entries s)" "entries s ! i = e'"
        by (auto simp: in_set_conv_nth)
      from mem obtain j where j: "j < length (entries s)" "entries s ! j = e"
        by (auto simp: in_set_conv_nth)
      from al i j have "index e' = i" "index e = j" by (auto simp: aligned_def)
      with i j have "index e' = index e \<longrightarrow> e' = e" by auto
      with le show ?thesis by simp
    qed
    from mem least low show ?thesis unfolding emp by blast
  qed
  from emp none some show ?thesis by blast
qed

text \<open>
  Claim C5. A reachable state that is not terminal has a non-empty list of possible
  actions, and a rollout that returns from a reachable state never returns through the
  branch for an empty action list.
\<close>

theorem non_terminal_has_actions:
  assumes "reachable (LayoutHandler_init lay) wh s"
  shows "(\<not> is_terminal s \<longrightarrow> (\<exists>a as. get_possible_actions s = Inr (a # as))) \<and>
         (\<forall>rng g res g'. rollout_policy rng g s = Some (res, g') \<longrightarrow> res \<noteq> Inl Exception)"
proof -
  from assms have form: "s = CrosswordState_init (entries s)" by (rule reachable_init_form)
  have a: "\<not> is_terminal s \<longrightarrow> (\<exists>a as. get_possible_actions s = Inr (a # as))"
    using form by (blast intro: non_terminal_actions)
  have b: "res \<noteq> Inl Exception" if "rollout_policy rng g s = Some (res, g')" for rng g res g'
    using rollout_no_exception [OF that] form by simp
  from a b show ?thesis by blast
qed

theorem next_entry_most_constrained_witness:
  "reachable (LayoutHandler_init corner_layout) corner_words corner_state0 \<and>
   next_entry_to_be_filled corner_state0 = Some (entries corner_state0 ! 0) \<and>
   entries corner_state0 ! 1 \<in> set (empty_entries corner_state0) \<and>
   num_possible_words (entries corner_state0 ! 1) = num_possible_words (entries corner_state0 ! 0) \<and>
   index (entries corner_state0 ! 0) \<le> index (entries corner_state0 ! 1)"
proof -
  have nx: "next_entry_to_be_filled corner_state0 = Some (entries corner_state0 ! 0)"
    by code_simp
  have mem: "entries corner_state0 ! 1 \<in> set (empty_entries corner_state0)"
    by code_simp
  have tie: "num_possible_words (entries corner_state0 ! 1)
      = num_possible_words (entries corner_state0 ! 0)"
    by code_simp
  from next_entry_most_constrained [OF corner_reachable0] nx mem tie
  have "index (entries corner_state0 ! 0) \<le> index (entries corner_state0 ! 1)"
    by blast
  with corner_reachable0 nx mem tie show ?thesis by blast
qed

theorem non_terminal_has_actions_witness:
  "reachable (LayoutHandler_init corner_layout) corner_words corner_state1 \<and>
   \<not> is_terminal corner_state1 \<and>
   (\<exists>a as. get_possible_actions corner_state1 = Inr (a # as)) \<and>
   rollout_policy ex_rng 0 corner_state1 = Some (Inr 2, Suc 0) \<and>
   (Inr 2 :: py_error + nat) \<noteq> Inl Exception"
proof -
  have t1: "\<not> is_terminal corner_state1" by code_simp
  from non_terminal_has_actions [OF corner_reachable1] t1
  have a: "\<exists>a as. get_possible_actions corner_state1 = Inr (a # as)" by blast
  from non_terminal_has_actions [OF corner_reachable1] corner_rollout
  have b: "(Inr 2 :: py_error + nat) \<noteq> Inl Exception" by blast
  from corner_reachable1 t1 a corner_rollout b show ?thesis by blast
qed

text \<open>
  Claim C7. For a node \<open>n\<close> of a tree (its chain of parents \<open>ps\<close> ends at a root),
  \<open>backpropagate\<close> returns; in the store it returns, \<open>n\<close> and each of its ancestors has
  one visit more and the greater of its previous reward and \<open>r\<close> as its reward, with no
  other field changed, so its reward is at least \<open>r\<close>; every other node is unchanged.
\<close>

theorem backpropagate_max_lift:
  assumes "ancestors h (Some n) ps"
  shows "\<exists>h'. backpropagate h (Some n) r = Some h' \<and>
           n \<in> set ps \<and>
           (\<forall>m\<in>set ps.
              h' m = (h m)\<lparr> num_visits := num_visits (h m) + 1,
                            reward := max (reward (h m)) r \<rparr> \<and>
              r \<le> reward (h' m)) \<and>
           (\<forall>m. m \<notin> set ps \<longrightarrow> h' m = h m)"
proof -
  from backpropagate_path [OF assms, of r] obtain h' where
    run: "backpropagate h (Some n) r = Some h'" and
    res: "\<forall>m. h' m = (if m \<in> set ps then visited r (h m) else h m)" by blast
  from assms have n: "n \<in> set ps" by (auto elim: ancestors_SomeE)
  have on: "h' m = (h m)\<lparr> num_visits := num_visits (h m) + 1, reward := max (reward (h m)) r \<rparr>
      \<and> r \<le> reward (h' m)" if "m \<in> set ps" for m
    using res that by (simp add: visited_def max.commute)
  have off: "h' m = h m" if "m \<notin> set ps" for m
    using res that by simp
  from run n on off show ?thesis by blast
qed

theorem backpropagate_max_lift_witness:
  "ancestors ex_tree (Some 1) [1, 0] \<and>
   (\<exists>h'. backpropagate ex_tree (Some 1) 3 = Some h' \<and>
      num_visits (h' 1) = 2 \<and> reward (h' 1) = 3 \<and>
      num_visits (h' 0) = 3 \<and> reward (h' 0) = 3 \<and>
      h' 2 = ex_tree 2)"
proof -
  from backpropagate_max_lift [OF ex_tree_ancestors, of 3] obtain h' where
    run: "backpropagate ex_tree (Some 1) 3 = Some h'" and
    on: "\<forall>m\<in>set [1, 0].
           h' m = (ex_tree m)\<lparr> num_visits := num_visits (ex_tree m) + 1,
                                reward := max (reward (ex_tree m)) 3 \<rparr> \<and>
           3 \<le> reward (h' m)" and
    off: "\<forall>m. m \<notin> set [1, 0] \<longrightarrow> h' m = ex_tree m" by blast
  from on have "num_visits (h' 1) = 2" "reward (h' 1) = 3"
    "num_visits (h' 0) = 3" "reward (h' 0) = 3"
    by (simp_all add: ex_tree_def TreeNode_init_def)
  moreover from off have "h' 2 = ex_tree 2" by simp
  ultimately show ?thesis using run ex_tree_ancestors by blast
qed

text \<open>
  Claim C6 does not hold of the code. The docstring of \<^verbatim>\<open>get_best_child\<close> promises the
  best child, and the claim a child of greatest score for every parent whose children
  have a number of options other than 0. A child whose state has every entry filled
  has the number of options \<^verbatim>\<open>None\<close>, which is not 0. On the grid of one row of three
  cells with the words \<^verbatim>\<open>cog\<close> and \<^verbatim>\<open>dog\<close> the two children of the root are such states,
  reached by \<open>take_action\<close> from the initial state, and after two rounds both have one
  visit and reward 1, so their scores are the same double \<open>v\<close>. Whenever \<open>v\<close> is a
  number greater than minus infinity (\<open>v > -inf\<close>, \<open>v == v\<close> and not \<open>v > v\<close>, as for every
  finite exploration value), the loop takes the first child and then compares
  \<^verbatim>\<open>None > None\<close> for the second: the call raises \<^verbatim>\<open>TypeError\<close> and returns no child.
\<close>

theorem get_best_child_tie_raises:
  assumes "fl_gt fl (node_value fl line_tree 0 x 1) (fl_neg_inf fl)"
    and "\<not> fl_gt fl (node_value fl line_tree 0 x 1) (node_value fl line_tree 0 x 1)"
    and "fl_eq fl (node_value fl line_tree 0 x 1) (node_value fl line_tree 0 x 1)"
  shows "get_initial_crossword_state (LayoutHandler_init line_layout) line_words
           = Inr (state (line_tree 0)) \<and>
         take_action (state (line_tree 0)) ''COG'' = Inr (state (line_tree 1)) \<and>
         take_action (state (line_tree 0)) ''DOG'' = Inr (state (line_tree 2)) \<and>
         map snd (children (line_tree 0)) = [1, 2] \<and>
         num_options (state (line_tree 1)) = None \<and>
         num_options (state (line_tree 2)) = None \<and>
         node_value fl line_tree 0 x 2 = node_value fl line_tree 0 x 1 \<and>
         get_best_child fl line_tree 0 x = Inl TypeError"
proof -
  have st: "state (line_tree 0) = line_state ''___'' [''COG'', ''DOG''] False"
    "state (line_tree 1) = line_state ''COG'' [''COG''] True"
    "state (line_tree 2) = line_state ''DOG'' [''DOG''] True"
    by (simp_all add: line_tree_def TreeNode_init_def)
  have init: "get_initial_crossword_state (LayoutHandler_init line_layout) line_words
           = Inr (line_state ''___'' [''COG'', ''DOG''] False)"
    by code_simp
  have cog: "take_action (line_state ''___'' [''COG'', ''DOG''] False) ''COG''
           = Inr (line_state ''COG'' [''COG''] True)"
    by code_simp
  have dog: "take_action (line_state ''___'' [''COG'', ''DOG''] False) ''DOG''
           = Inr (line_state ''DOG'' [''DOG''] True)"
    by code_simp
  have cs: "map snd (children (line_tree 0)) = [1, 2]"
    by (simp add: line_tree_def TreeNode_init_def)
  have no: "num_options (line_state ''COG'' [''COG''] True) = None"
    "num_options (line_state ''DOG'' [''DOG''] True) = None"
    by code_simp+
  have no': "num_options (state (line_tree 1)) = None" "num_options (state (line_tree 2)) = None"
    unfolding st by (rule no)+
  have nv: "node_value fl line_tree 0 x 2 = node_value fl line_tree 0 x 1"
    unfolding node_value_def no' by (simp add: line_tree_def TreeNode_init_def)
  have "get_best_child fl line_tree 0 x = Inl TypeError"
    unfolding get_best_child_def cs
    using assms by (simp add: Let_def nv no' del: One_nat_def)
  with st init cog dog cs no nv show ?thesis by (simp del: One_nat_def)
qed

theorem get_best_child_tie_raises_witness:
  "fl_gt exact_float (node_value exact_float line_tree 0 (Some 1) 1) (fl_neg_inf exact_float) \<and>
   \<not> fl_gt exact_float (node_value exact_float line_tree 0 (Some 1) 1)
        (node_value exact_float line_tree 0 (Some 1) 1) \<and>
   fl_eq exact_float (node_value exact_float line_tree 0 (Some 1) 1)
        (node_value exact_float line_tree 0 (Some 1) 1) \<and>
   get_best_child exact_float line_tree 0 (Some 1) = Inl TypeError"
proof -
  have v: "node_value exact_float line_tree 0 (Some 1) 1 = Some (1 + 1 * sqrt (ln 2 / 1))"
    by (simp add: node_value_def exact_float_def line_tree_def TreeNode_init_def num_options_def
        line_state_def CrosswordState_init_def get_next_entry_def)
  have h1: "fl_gt exact_float (node_value exact_float line_tree 0 (Some 1) 1) (fl_neg_inf exact_float)"
    unfolding v by (simp add: exact_float_def)
  have h2: "\<not> fl_gt exact_float (node_value exact_float line_tree 0 (Some 1) 1)
        (node_value exact_float line_tree 0 (Some 1) 1)"
    unfolding v by (simp add: exact_float_def)
  have h3: "fl_eq exact_float (node_value exact_float line_tree 0 (Some 1) 1)
        (node_value exact_float line_tree 0 (Some 1) 1)"
    by (simp add: exact_float_def)
  from get_best_child_tie_raises [OF h1 h2 h3] h1 h2 h3 show ?thesis by simp
qed

text \<open>
  Claim C8 does not hold of the code. The docstring of \<^verbatim>\<open>preprocess_words\<close> promises that
  non-alphabetic characters and words that are too short or too long are removed, and
  the claim applies the length filter to the stripped form. The code tests the length
  of the raw string, before uppercasing and stripping. With 3 as the only word length,
  the items \<^verbatim>\<open>a-b\<close> and \<^verbatim>\<open>ab-c\<close> give the word list \<^verbatim>\<open>AB\<close>: the first item passes the
  filter with its raw length 3 and is kept as a word of length 2, the second is dropped
  with its raw length 4 although its stripped form \<^verbatim>\<open>ABC\<close> has length 3. The last
  conjunct is the list that the claim describes.
\<close>

theorem length_filter_reads_raw_string:
  "filter_func [3] (Str (py_str ''a-b'')) \<and> \<not> filter_func [3] (Str (py_str ''ab-c'')) \<and>
   map_func (py_str ''a-b'') = ''AB'' \<and> map_func (py_str ''ab-c'') = ''ABC'' \<and>
   transformed_words [3] [Str (py_str ''a-b''), Str (py_str ''ab-c'')] = [''AB''] \<and>
   fst (preprocess_words ex_rng 0 [3] None [Str (py_str ''a-b''), Str (py_str ''ab-c'')]) = [''AB''] \<and>
   [map_func x. Str x \<leftarrow> [Str (py_str ''a-b''), Str (py_str ''ab-c'')], length (map_func x) \<in> set [3]]
     = [''ABC'']"
  by code_simp

text \<open>
  Claim C1 does not hold of the code. In the T-shaped grid (a row of four cells and a
  column of three cells below its second cell) the across entry has four cells and one
  dependency; the dependency stands at position 0 of the list and refers to the entry
  that shares the cell at position 1. \<open>take_action\<close> indexes the action by the position
  in the list: filling the row with \<^verbatim>\<open>DUCK\<close> fixes the first letter of the column to
  \<^verbatim>\<open>D\<close>, not \<^verbatim>\<open>U\<close>, and the run ends as a success with \<^verbatim>\<open>DUCK\<close> and \<^verbatim>\<open>DOG\<close>, which
  disagree on the shared cell.
\<close>

theorem dependencies_not_parallel:
  "lh_coordinates (LayoutHandler_init tee_layout)
     = [[(0, 0), (0, 1), (0, 2), (0, 3)], [(0, 1), (1, 1), (2, 1)]] \<and>
   lh_dependencies (LayoutHandler_init tee_layout) = [[(1, 0)], [(0, 1)]] \<and>
   map_option (\<lambda>s. map (\<lambda>e. (coordinates e, dependencies e, pattern e, possible_words e, word_fixed e)) (entries s))
     (play_from_initial (LayoutHandler_init tee_layout) corner_words [''DUCK''])
     = Some [([(0, 0), (0, 1), (0, 2), (0, 3)], [(1, 0)], ''DUCK'', [''DUCK''], True),
             ([(0, 1), (1, 1), (2, 1)], [(0, 1)], ''D__'', [''DOG''], False)] \<and>
   map_option (\<lambda>s. (map (\<lambda>e. (pattern e, word_fixed e)) (entries s), is_terminal s, get_reward s))
     (play_from_initial (LayoutHandler_init tee_layout) corner_words [''DUCK'', ''DOG''])
     = Some ([(''DUCK'', True), (''DOG'', True)], True, 2)"
  by code_simp

end
